theory Spec2Isabelle
  imports Main "HOL-Library.Word"
begin

unbundle bit_operations_syntax

section \<open>Bytes, slices and the HID transport\<close>

type_synonym byte = "8 word"

text \<open>
  The failures an operation can return.  \<open>ErrTransport\<close> is whatever error \<open>Dev.Write\<close> or
  \<open>Dev.Read\<close> hands back; \<open>ErrI2CRead\<close>, \<open>ErrI2CWrite\<close> and \<open>ErrInvalidResponse\<close> are the
  package's error variables; \<open>ErrUnsupported\<close> is \<open>errors.ErrUnsupported\<close>; the three \<open>ErrGpio\<close>
  values are the \<open>fmt.Errorf\<close> results of gpio.go (invalid response, set as output failed,
  set as input failed).  \<open>Panic\<close> is a Go run-time panic (index or slice bounds out of range).
\<close>

datatype error =
    ErrTransport
  | ErrI2CRead
  | ErrI2CWrite
  | ErrInvalidResponse
  | ErrUnsupported
  | ErrGpioResponse
  | ErrGpioOutput
  | ErrGpioInput
  | Panic

text \<open>
  A Go slice is the pair of its visible elements and the spare elements of its backing array
  behind them (\<open>sl_len\<close> is \<open>len\<close>, the length of the first list, and \<open>sl_cap\<close> is \<open>cap\<close>, the
  length of both).
  \<open>sl_append\<close> is \<open>append\<close>: the new elements overwrite the spare ones; an append that
  outgrows the backing array moves to a new array, modelled with no spare room left.
  \<open>sl_upto p n\<close> is \<open>p[:n]\<close>, which panics outside \<open>0 .. cap\<close>.
  \<open>copy_bytes dst src\<close> is the contents of \<open>dst\<close> after \<open>copy(dst, src)\<close>.
\<close>

type_synonym slice = "byte list \<times> byte list"

definition sl_make :: "nat \<Rightarrow> nat \<Rightarrow> slice" where
  "sl_make n c = (replicate n 0, replicate (c - n) 0)"

definition sl_len :: "slice \<Rightarrow> int" where
  "sl_len p = int (length (fst p))"

definition sl_cap :: "slice \<Rightarrow> nat" where
  "sl_cap p = length (fst p) + length (snd p)"

definition sl_append :: "slice \<Rightarrow> byte list \<Rightarrow> slice" where
  "sl_append p xs = (fst p @ xs, drop (length xs) (snd p))"

definition sl_upto :: "slice \<Rightarrow> int \<Rightarrow> slice option" where
  "sl_upto p n =
     (if 0 \<le> n \<and> nat n \<le> length (fst p) + length (snd p)
      then Some (take (nat n) (fst p @ snd p), drop (nat n) (fst p @ snd p))
      else None)"

definition copy_bytes :: "byte list \<Rightarrow> byte list \<Rightarrow> byte list" where
  "copy_bytes dst src = take (length dst) src @ drop (length src) dst"

definition byte_of :: "int \<Rightarrow> byte" where
  "byte_of n = word_of_int n"

text \<open>
  The transport (\<open>HIDDev\<close>) is a scripted device.  \<open>outbox\<close> lists the frames \<open>Dev.Write\<close>
  accepted and \<open>rdlens\<close> the lengths of the buffers \<open>Dev.Read\<close> filled, both oldest first.
  \<open>inbox\<close> holds what the device answers to the coming reads (\<open>None\<close>: that read returns an
  error; an exhausted inbox is a read that times out with an error) and \<open>wfail\<close> says which of
  the coming writes return an error (exhausted: writes succeed).  A read copies the answer
  over the front of the buffer, as an \<open>io.Reader\<close> does; the callers ignore the count.
\<close>

record hid =
  outbox :: "byte list list"
  rdlens :: "nat list"
  inbox :: "byte list option list"
  wfail :: "bool list"

definition dev_write :: "hid \<Rightarrow> byte list \<Rightarrow> error option \<times> hid" where
  "dev_write d f =
     (case wfail d of
        [] \<Rightarrow> (None, d\<lparr>outbox := outbox d @ [f]\<rparr>)
      | failing # ws \<Rightarrow>
          if failing then (Some ErrTransport, d\<lparr>wfail := ws\<rparr>)
          else (None, d\<lparr>outbox := outbox d @ [f], wfail := ws\<rparr>))"

definition dev_read :: "hid \<Rightarrow> byte list \<Rightarrow> error option \<times> byte list \<times> hid" where
  "dev_read d buf =
     (case inbox d of
        [] \<Rightarrow> (Some ErrTransport, buf, d)
      | None # rest \<Rightarrow> (Some ErrTransport, buf, d\<lparr>inbox := rest\<rparr>)
      | Some reply # rest \<Rightarrow>
          (None, copy_bytes buf reply, d\<lparr>rdlens := rdlens d @ [length buf], inbox := rest\<rparr>))"

section \<open>GPIO (gpio.go)\<close>

text \<open>
  \<open>Pin\<close> is a \<open>uint8\<close>, so \<open>pos := 5 + pin\<close> is computed in 8 bits; indexing the 13-byte frame
  at 13 or beyond panics.  The mutex is not modelled: one call runs at a time.
\<close>

definition gpio_frame :: "byte list" where
  "gpio_frame = [0x0b, 0x00, 0xcc, 0x08, 0x00, 0x00, 0x00, 0x00, 0x00, 0x00, 0x00, 0x00, 0x00]"

definition WritePin :: "byte \<Rightarrow> bool \<Rightarrow> bool \<Rightarrow> hid \<Rightarrow> error option \<times> hid" where
  "WritePin pin output level d =
     (let pos = unat (5 + pin) in
      if 13 \<le> pos then (Some Panic, d)
      else
        let p = gpio_frame[pos := (if output then (if level then 0xf8 else 0xf0) else 0xc0)];
            (werr, d1) = dev_write d p
        in if werr \<noteq> None then (werr, d1)
           else
             let (rerr, p', d2) = dev_read d1 p
             in if rerr \<noteq> None then (rerr, d2)
                else if p' ! 0 \<noteq> 0x0b \<or> p' ! 2 \<noteq> 0xcc then (Some ErrGpioResponse, d2)
                else if output then
                  (let mask = (0x80 :: byte) OR (if level then 0x40 else 0)
                   in if p' ! pos AND mask = 0x00 then (Some ErrGpioOutput, d2) else (None, d2))
                else
                  (if p' ! pos AND 0x80 \<noteq> 0x00 then (Some ErrGpioInput, d2) else (None, d2)))"

definition ReadPin :: "byte \<Rightarrow> hid \<Rightarrow> bool \<times> error option \<times> hid" where
  "ReadPin pin d =
     (let p = gpio_frame;
          (werr, d1) = dev_write d p
      in if werr \<noteq> None then (False, werr, d1)
         else
           let (rerr, p', d2) = dev_read d1 p
           in if rerr \<noteq> None then (False, rerr, d2)
              else if p' ! 0 \<noteq> 0x0b \<or> p' ! 2 \<noteq> 0xcc then (False, Some ErrGpioResponse, d2)
              else
                let pos = unat (5 + pin)
                in if 13 \<le> pos then (False, Some Panic, d2)
                   else if p' ! pos AND 0x80 \<noteq> 0x00 then
                     (if p' ! pos AND 0x40 \<noteq> 0x00 then (True, None, d2) else (False, None, d2))
                   else
                     (if p' ! pos AND 0x40 \<noteq> 0x00 then (False, None, d2) else (True, None, d2)))"

section \<open>SPI (spi.go)\<close>

text \<open>
  \<open>SPIMode\<close>, \<open>SPIClock\<close> and \<open>SPIByteOrder\<close> are \<open>uint8\<close>; a mode outside 0..3 matches no
  case of the switch and appends nothing.
\<close>

definition spi_mode_bytes :: "byte \<Rightarrow> byte list" where
  "spi_mode_bytes mode =
     (if mode = 0 then [0x00, 0x00, 0x00, 0x00]
      else if mode = 1 then [0x00, 0x00, 0x01, 0x00]
      else if mode = 2 then [0x02, 0x00, 0x00, 0x00]
      else if mode = 3 then [0x02, 0x00, 0x01, 0x00]
      else [])"

definition spi_config_frame :: "byte \<Rightarrow> byte \<Rightarrow> byte \<Rightarrow> byte list" where
  "spi_config_frame mode clock byteOrder =
     [0x1d, 0x00]
     @ [0xc0, 0x1a, 0x00, 0x00, 0x00, 0x04, 0x01, 0x00, 0x00]
     @ spi_mode_bytes mode
     @ [0x00, 0x02]
     @ [push_bit 3 clock]
     @ [0x00]
     @ [push_bit 7 byteOrder]
     @ [0x00, 0x07, 0x00]
     @ [0x00, 0x00]
     @ [0xff]
     @ [0x00]
     @ [0x00, 0x00, 0x00, 0x00]"

definition SetSPI :: "byte \<Rightarrow> byte \<Rightarrow> byte \<Rightarrow> hid \<Rightarrow> error option \<times> hid" where
  "SetSPI mode clock byteOrder d =
     (let p = spi_config_frame mode clock byteOrder;
          (werr, d1) = dev_write d p
      in if werr \<noteq> None then (werr, d1)
         else
           let p = take 6 p;
               (rerr, p', d2) = dev_read d1 p
           in if rerr \<noteq> None then (rerr, d2)
              else if p' ! 2 \<noteq> 0xc0 \<and> p' ! 3 \<noteq> 0x01 then (Some ErrInvalidResponse, d2)
              else (None, d2))"

text \<open>
  \<open>SPI\<close>.  The closure \<open>write\<close> captures the frame buffer \<open>p\<close> (made with capacity 512), the
  counter \<open>sent\<close> and the device; they are the fields of \<open>spi_st\<close>.
\<close>

record spi_st =
  spi_p :: slice
  sent :: int
  spi_dev :: hid

definition CmdSPIWrite :: byte where
  "CmdSPIWrite = 0xc4"

definition maxDataLen :: int where
  "maxDataLen = 509"

definition maxOpLen :: int where
  "maxOpLen = 32768 - maxDataLen * 2"

text \<open>Writing the length into the first two bytes of a frame buffer: \<open>p[0]\<close> and \<open>p[1]\<close>.\<close>

definition set_header :: "byte list \<Rightarrow> int \<Rightarrow> byte list" where
  "set_header xs plen = xs[0 := byte_of (plen AND 0xff), 1 := byte_of (drop_bit 8 plen AND 0xff)]"

text \<open>The confirmation loop of \<open>write\<close>: \<open>for ; sent > 0; sent-- { ... }\<close>.\<close>

function spi_confirm :: "spi_st \<Rightarrow> error option \<times> spi_st" where
  "spi_confirm s =
     (if 0 < sent s then
        (case sl_upto (spi_p s) 5 of
           None \<Rightarrow> (Some Panic, s)
         | Some p5 \<Rightarrow>
             let (rerr, buf, d1) = dev_read (spi_dev s) (fst p5);
                 s1 = s\<lparr>spi_p := (buf, snd p5), spi_dev := d1\<rparr>
             in if rerr \<noteq> None then (rerr, s1)
                else if buf ! 2 \<noteq> 0xc4 \<and> buf ! 3 \<noteq> 0x01 then (Some ErrInvalidResponse, s1)
                else spi_confirm (s1\<lparr>sent := sent s1 - 1\<rparr>))
      else (None, s))"
  by pat_completeness auto
termination
  by (relation "measure (\<lambda>s. nat (sent s))") (auto split: prod.splits)

definition spi_write :: "bool \<Rightarrow> spi_st \<Rightarrow> error option \<times> spi_st" where
  "spi_write finish s =
     (if sl_len (spi_p s) \<le> 2 then (None, s)
      else
        let plen = sl_len (spi_p s) - 2;
            p = (set_header (fst (spi_p s)) plen, snd (spi_p s));
            (werr, d1) = dev_write (spi_dev s) (fst p);
            s1 = s\<lparr>spi_p := p, spi_dev := d1\<rparr>
        in if werr \<noteq> None then (werr, s1)
           else
             let s2 = s1\<lparr>sent := sent s1 + 1\<rparr>;
                 (cerr, s3) = (if finish then spi_confirm s2 else (None, s2))
             in if cerr \<noteq> None then (cerr, s3)
                else (case sl_upto (spi_p s3) 2 of
                        None \<Rightarrow> (Some Panic, s3)
                      | Some p2 \<Rightarrow> (None, s3\<lparr>spi_p := p2\<rparr>)))"

text \<open>
  One round of the loop \<open>for pos < wlen\<close>, block by block.  \<open>spi_begin\<close> is the block
  \<open>if olen == 0\<close> that starts an operation with its header; \<open>spi_dlen\<close> computes \<open>dlen\<close> for
  the packet and the operation; \<open>spi_fill\<close> appends \<open>w[pos:pos+dlen]\<close>; \<open>spi_send\<close> sends a
  full packet; \<open>spi_finish\<close> is the block \<open>if olen == maxOpLen\<close> behind the counters'
  update.
\<close>

definition spi_begin :: "byte list \<Rightarrow> int \<Rightarrow> int \<Rightarrow> spi_st \<Rightarrow> spi_st" where
  "spi_begin w pos olen s =
     (if olen = 0 then
        (let nlen0 = int (length w) - pos;
             nlen = (if nlen0 > maxOpLen then maxOpLen else nlen0)
         in s\<lparr>spi_p := sl_append (spi_p s)
              [0x00, 0x00, CmdSPIWrite, byte_of nlen AND 0xff, byte_of (drop_bit 8 nlen) AND 0xff]\<rparr>)
      else s)"

definition spi_dlen :: "byte list \<Rightarrow> int \<Rightarrow> int \<Rightarrow> spi_st \<Rightarrow> int" where
  "spi_dlen w pos olen s =
     (let dlen0 = int (length w) - pos;
          plen = sl_len (spi_p s);
          dlen1 = (if plen + dlen0 > maxDataLen then maxDataLen - plen else dlen0)
      in if olen + dlen1 > maxOpLen then maxOpLen - olen else dlen1)"

definition spi_fill :: "byte list \<Rightarrow> int \<Rightarrow> int \<Rightarrow> spi_st \<Rightarrow> spi_st" where
  "spi_fill w pos dlen s = s\<lparr>spi_p := sl_append (spi_p s) (take (nat dlen) (drop (nat pos) w))\<rparr>"

definition spi_send :: "spi_st \<Rightarrow> error option \<times> spi_st" where
  "spi_send s = (if sl_len (spi_p s) \<ge> maxDataLen then spi_write False s else (None, s))"

definition spi_finish :: "spi_st \<Rightarrow> error option \<times> spi_st" where
  "spi_finish s =
     (let (err, s1) = spi_write True s
      in if err \<noteq> None then (err, s1)
         else (case sl_upto (spi_p s1) 0 of
                 None \<Rightarrow> (Some Panic, s1)
               | Some p0 \<Rightarrow> (None, s1\<lparr>spi_p := p0\<rparr>)))"

text \<open>
  The loop \<open>for pos < wlen\<close>.  It is not structurally recursive and its progress depends on
  the buffer, so it is a partial function: \<open>None\<close> would be a run that never ends.
  \<open>w[pos:pos+dlen]\<close> panics when \<open>pos\<close> or \<open>dlen\<close> is negative.
\<close>

partial_function (option) spi_loop :: "byte list \<Rightarrow> int \<Rightarrow> int \<Rightarrow> spi_st \<Rightarrow> (error option \<times> spi_st) option" where
  [code]: "spi_loop w pos olen s =
     (if pos < int (length w) then
        (let s1 = spi_begin w pos olen s;
             dlen = spi_dlen w pos olen s1
         in if pos < 0 \<or> dlen < 0 then Some (Some Panic, s1)
            else
              let r1 = spi_send (spi_fill w pos dlen s1)
              in if fst r1 \<noteq> None then Some r1
                 else if olen + dlen = maxOpLen then
                   (let r2 = spi_finish (snd r1)
                    in if fst r2 \<noteq> None then Some r2
                       else spi_loop w (pos + dlen) 0 (snd r2))
                 else spi_loop w (pos + dlen) (olen + dlen) (snd r1))
      else Some (spi_write True s))"

definition SPI :: "byte list \<Rightarrow> byte list \<Rightarrow> hid \<Rightarrow> (error option \<times> hid) option" where
  "SPI w r d =
     (if length r \<noteq> 0 then Some (Some ErrUnsupported, d)
      else
        (case spi_loop w 0 0 \<lparr>spi_p = sl_make 0 512, sent = 0, spi_dev = d\<rparr> of
           None \<Rightarrow> None
         | Some (err, s) \<Rightarrow> Some (err, spi_dev s)))"

section \<open>UART (uart.go)\<close>

text \<open>
  \<open>plen\<close>, the payload room of one frame: \<open>len(b)\<close> capped at 510.  The length a received
  frame announces is \<open>(int(p[1]) << 8) | int(p[0])\<close>.
\<close>

definition uart_plen :: "byte list \<Rightarrow> int" where
  "uart_plen b = (if int (length b) > 510 then 510 else int (length b))"



text \<open>
  One round of the loop of \<open>Write\<close>: \<open>uart_dlen\<close> is the chunk length and \<open>uart_chunk\<close> the
  frame buffer handed to \<open>Dev.Write\<close> (\<open>None\<close>: a panic; \<open>b[pos:pos+dlen]\<close> panics for a
  negative \<open>pos\<close>, \<open>p[1]\<close> for a buffer shorter than 2, \<open>p[:2+dlen]\<close> beyond the capacity).
\<close>

definition uart_dlen :: "byte list \<Rightarrow> int \<Rightarrow> int" where
  "uart_dlen b pos =
     (if int (length b) - pos > uart_plen b then uart_plen b else int (length b) - pos)"

definition uart_chunk :: "byte list \<Rightarrow> slice \<Rightarrow> int \<Rightarrow> slice option" where
  "uart_chunk b p pos =
     (let dlen = uart_dlen b pos
      in if pos < 0 \<or> length (fst p) < 2 then None
         else
           let p1 = set_header (fst p) dlen;
               p2 = (take 2 p1 @ copy_bytes (drop 2 p1) (take (nat dlen) (drop (nat pos) b)), snd p)
           in if dlen \<noteq> uart_plen b then sl_upto p2 (2 + dlen) else Some p2)"

function UART_Write_loop :: "byte list \<Rightarrow> slice \<Rightarrow> int \<Rightarrow> hid \<Rightarrow> int \<times> error option \<times> hid" where
  "UART_Write_loop b p pos d =
     (if pos < int (length b) then
        (case uart_chunk b p pos of
           None \<Rightarrow> (pos, Some Panic, d)
         | Some p3 \<Rightarrow>
             let (werr, d1) = dev_write d (fst p3)
             in if werr \<noteq> None then (pos, werr, d1)
                else UART_Write_loop b p3 (pos + uart_dlen b pos) d1)
      else (pos, None, d))"
  by pat_completeness auto
termination
  by (relation "measure (\<lambda>(b, p, pos, d). nat (int (length b) - pos))")
     (auto simp: uart_chunk_def uart_dlen_def uart_plen_def Let_def split: if_splits)

definition UART_Write :: "byte list \<Rightarrow> hid \<Rightarrow> int \<times> error option \<times> hid" where
  "UART_Write b d =
     UART_Write_loop b (sl_make (nat (uart_plen b + 2)) (nat (uart_plen b + 2))) 0 d"

section \<open>I2C (i2c.go)\<close>

text \<open>
  The closures \<open>write\<close> and \<open>pack\<close> capture the frame buffer \<open>p\<close> (capacity 512), the counters
  \<open>toWrite\<close>, \<open>toRead\<close> and \<open>rpos\<close>, the flag \<open>hasRead\<close>, the caller's buffer \<open>r\<close> and the
  device: the fields of \<open>i2c_st\<close>.  The caller's slices \<open>w\<close> and \<open>r\<close> have no spare capacity.
\<close>

record i2c_st =
  i2c_p :: slice
  toWrite :: int
  toRead :: int
  rpos :: int
  hasRead :: bool
  i2c_r :: "byte list"
  i2c_dev :: hid

definition maxPacketLen :: int where
  "maxPacketLen = 512"

definition maxLen :: int where
  "maxLen = 63"

definition CmdI2CStream :: byte where
  "CmdI2CStream = 0xAA"

definition CmdI2CStart :: byte where
  "CmdI2CStart = 0x74"

definition CmdI2CStop :: byte where
  "CmdI2CStop = 0x75"

definition CmdI2CWrite :: byte where
  "CmdI2CWrite = 0x80"

definition CmdI2CRead :: byte where
  "CmdI2CRead = 0xc0"

text \<open>\<open>for toWrite > 0 { if p[pos] == 0x00 { return ErrI2CWrite }; toWrite--; pos++ }\<close>\<close>

function i2c_confirm_writes :: "byte list \<Rightarrow> int \<Rightarrow> int \<Rightarrow> error option \<times> int \<times> int" where
  "i2c_confirm_writes buf tw pos =
     (if 0 < tw then
        (if pos < 0 \<or> int (length buf) \<le> pos then (Some Panic, tw, pos)
         else if buf ! nat pos = 0x00 then (Some ErrI2CWrite, tw, pos)
         else i2c_confirm_writes buf (tw - 1) (pos + 1))
      else (None, tw, pos))"
  by pat_completeness auto
termination
  by (relation "measure (\<lambda>(buf, tw, pos). nat tw)") auto

text \<open>
  \<open>copy(r[rpos:rpos+toRead], p[pos:pos+toRead])\<close>, then \<open>rpos += toRead\<close> and \<open>toRead = 0\<close>.
  Either slice expression panics when its bounds leave \<open>0 .. cap\<close>.
\<close>

definition i2c_copy :: "int \<Rightarrow> i2c_st \<Rightarrow> error option \<times> i2c_st" where
  "i2c_copy pos s =
     (let n = toRead s;
          whole = fst (i2c_p s) @ snd (i2c_p s)
      in if rpos s < 0 \<or> n < 0 \<or> int (length (i2c_r s)) < rpos s + n
            \<or> pos < 0 \<or> int (length whole) < pos + n
         then (Some Panic, s)
         else
           let dst = take (nat n) (drop (nat (rpos s)) (i2c_r s));
               src = take (nat n) (drop (nat pos) whole)
           in (None, s\<lparr>i2c_r := take (nat (rpos s)) (i2c_r s) @ copy_bytes dst src
                                   @ drop (nat (rpos s + n)) (i2c_r s),
                        rpos := rpos s + n,
                        toRead := 0\<rparr>))"

text \<open>The block \<open>if toRead > 0 { ... }\<close> of \<open>write\<close>, entered with \<open>pos\<close> behind the write acknowledgements.\<close>

definition i2c_confirm_reads :: "int \<Rightarrow> i2c_st \<Rightarrow> error option \<times> i2c_st" where
  "i2c_confirm_reads pos s =
     (if 0 < toRead s then
        (if hasRead s then
           (let s1 = s\<lparr>hasRead := False\<rparr>
            in if pos < 0 \<or> int (length (fst (i2c_p s1))) \<le> pos then (Some Panic, s1)
               else if fst (i2c_p s1) ! nat pos \<noteq> 0x01 then (Some ErrI2CRead, s1)
               else i2c_copy (pos + 1) s1)
         else i2c_copy pos s)
      else (None, s))"

text \<open>
  The block \<open>if clen := (toWrite + toRead); clen > 0 { ... }\<close> of \<open>write\<close>: the read of
  \<open>2 + clen\<close> bytes, with \<open>clen\<close> one more when \<open>hasRead\<close> is set, and the confirmations.
\<close>

definition i2c_rlen :: "i2c_st \<Rightarrow> int" where
  "i2c_rlen s =
     (let clen = toWrite s + toRead s;
          clen' = (if hasRead s then clen + 1 else clen)
      in 2 + clen')"

definition i2c_confirm :: "i2c_st \<Rightarrow> error option \<times> i2c_st" where
  "i2c_confirm s =
     (case sl_upto (i2c_p s) (i2c_rlen s) of
        None \<Rightarrow> (Some Panic, s)
      | Some p2 \<Rightarrow>
          let (rerr, buf, d2) = dev_read (i2c_dev s) (fst p2);
              s2 = s\<lparr>i2c_p := (buf, snd p2), i2c_dev := d2\<rparr>
          in if rerr \<noteq> None then (rerr, s2)
             else
               let (cerr, tw, pos) = i2c_confirm_writes buf (toWrite s2) 2;
                   s3 = s2\<lparr>toWrite := tw\<rparr>
               in if cerr \<noteq> None then (cerr, s3)
                  else i2c_confirm_reads pos s3)"

text \<open>
  The head of \<open>write\<close>: the closing \<open>0x00\<close> and the length in the first two bytes
  (\<open>None\<close>: \<open>p[1]\<close> panics on a buffer of one byte).
\<close>

definition i2c_close :: "slice \<Rightarrow> slice option" where
  "i2c_close p =
     (let p0 = sl_append p [0x00];
          plen = sl_len p0 - 2
      in if length (fst p0) < 2 then None
         else Some (set_header (fst p0) plen, snd p0))"

definition i2c_write :: "i2c_st \<Rightarrow> error option \<times> i2c_st" where
  "i2c_write s =
     (case i2c_close (i2c_p s) of
        None \<Rightarrow> (Some Panic, s)
      | Some p1 \<Rightarrow>
          let (werr, d1) = dev_write (i2c_dev s) (fst p1);
              s1 = s\<lparr>i2c_p := p1, i2c_dev := d1\<rparr>
          in if werr \<noteq> None then (werr, s1)
             else
               let (err, s2) = (if 0 < toWrite s1 + toRead s1 then i2c_confirm s1 else (None, s1))
               in if err \<noteq> None then (err, s2)
                  else (case sl_upto (i2c_p s2) 0 of
                          None \<Rightarrow> (Some Panic, s2)
                        | Some pe \<Rightarrow> (None, s2\<lparr>i2c_p := pe\<rparr>)))"

definition pack :: "byte list \<Rightarrow> i2c_st \<Rightarrow> error option \<times> i2c_st" where
  "pack elems s =
     (let (err, s1) = (if sl_len (i2c_p s) + int (length elems) \<ge> maxPacketLen - 2
                       then i2c_write s else (None, s))
      in if err \<noteq> None then (err, s1)
         else
           let s2 = (if sl_len (i2c_p s1) = 0
                     then s1\<lparr>i2c_p := sl_append (sl_append (i2c_p s1) [0x00, 0x00]) [CmdI2CStream]\<rparr>
                     else s1)
           in (None, s2\<lparr>i2c_p := sl_append (i2c_p s2) elems\<rparr>))"

text \<open>
  One round of the loop \<open>for pos < wlen\<close> of the write part, up to the call of \<open>pack\<close>:
  from \<open>pos\<close> and the write part \<open>d\<close> (here \<open>dd\<close>) to the new \<open>pos\<close>, the bytes to pack and
  the count added to \<open>toWrite\<close> (\<open>None\<close>: a panic).  \<open>addr\<close> is a \<open>uint16\<close> and
  \<open>byte(addr<<1)\<close> keeps the low 8 bits of the shifted value.
\<close>

definition i2c_wpart :: "16 word \<Rightarrow> byte list \<Rightarrow> int \<Rightarrow> byte list \<Rightarrow> (int \<times> byte list \<times> int) option" where
  "i2c_wpart addr w pos dd =
     (let dlen0 = int (length w) - pos;
          dlen1 = (if dlen0 > maxLen then maxLen else dlen0);
          dlen2 = (if pos = 0 \<and> dlen1 = maxLen then dlen1 - 1 else dlen1);
          d1 = (if pos = 0 then dd @ [ucast (push_bit 1 addr)] else dd)
      in if pos < 0 \<or> dlen2 < 0 then None
         else
           let d2 = d1 @ take (nat dlen2) (drop (nat pos) w);
               pos' = pos + dlen2;
               dlen3 = int (length d2) - 1;
               dlen4 = (if pos' = 0 then dlen3 + 1 else dlen3)
           in if d2 = [] then None
              else Some (pos', d2[0 := CmdI2CWrite OR byte_of dlen4], dlen4))"

function i2c_write_loop :: "16 word \<Rightarrow> byte list \<Rightarrow> int \<Rightarrow> byte list \<Rightarrow> i2c_st \<Rightarrow> error option \<times> i2c_st" where
  "i2c_write_loop addr w pos dd s =
     (if pos < int (length w) then
        (case i2c_wpart addr w pos dd of
           None \<Rightarrow> (Some Panic, s)
         | Some (pos', d3, dlen) \<Rightarrow>
             let (err, s1) = pack d3 s
             in if err \<noteq> None then (err, s1)
                else i2c_write_loop addr w pos' (take 1 d3) (s1\<lparr>toWrite := toWrite s1 + dlen\<rparr>))
      else (None, s))"
  by pat_completeness auto
termination
  by (relation "measure (\<lambda>(addr, w, pos, dd, s). nat (int (length w) - pos))")
     (auto simp: i2c_wpart_def maxLen_def Let_def split: if_splits)

text \<open>
  One round of the loop \<open>for rlen > 0\<close> of the read part.  \<open>i2c_rsend\<close> is the test
  \<open>nlen >= maxPacketLen\<close> that sets \<open>send\<close>, \<open>i2c_rdlen\<close> the value of \<open>dlen\<close> behind it,
  \<open>i2c_rreq\<close> the read request \<open>d\<close> with the next read command, \<open>i2c_rcount\<close> the counters
  after \<open>toRead--\<close> and \<open>toRead += dlen\<close>.  In \<open>CmdI2CRead|byte(dlen)-1\<close> the operators \<open>|\<close>
  and \<open>-\<close> have one precedence and group from the left.
\<close>

definition i2c_rsend :: "int \<Rightarrow> i2c_st \<Rightarrow> bool" where
  "i2c_rsend rlen s =
     (let dlen = (if rlen > maxLen then maxLen else rlen);
          nlen = 2 + toWrite s + toRead s + dlen
      in nlen \<ge> maxPacketLen)"

definition i2c_rdlen :: "int \<Rightarrow> i2c_st \<Rightarrow> int" where
  "i2c_rdlen rlen s =
     (let dlen = (if rlen > maxLen then maxLen else rlen);
          nlen = 2 + toWrite s + toRead s + dlen
      in if nlen \<ge> maxPacketLen then dlen - (nlen - maxPacketLen) else dlen)"

definition i2c_rreq :: "int \<Rightarrow> int \<Rightarrow> byte list \<Rightarrow> byte list" where
  "i2c_rreq maxRLen dlen dd =
     (if maxRLen = 63 then dd @ [CmdI2CRead OR byte_of dlen]
      else if dlen > 1 then dd @ [(CmdI2CRead OR byte_of dlen) - 1]
      else dd)"

definition i2c_rcount :: "bool \<Rightarrow> int \<Rightarrow> i2c_st \<Rightarrow> i2c_st" where
  "i2c_rcount send dlen s =
     (let s1 = (if send \<and> hasRead s then s\<lparr>toRead := toRead s - 1\<rparr> else s)
      in s1\<lparr>toRead := toRead s1 + dlen\<rparr>)"

text \<open>The block \<open>if send { ... }\<close>: pack the read request, then \<open>write()\<close>.\<close>

definition i2c_flush :: "byte list \<Rightarrow> i2c_st \<Rightarrow> error option \<times> i2c_st" where
  "i2c_flush dd s =
     (let (err, s1) = pack dd s
      in if err \<noteq> None then (err, s1) else i2c_write s1)"

text \<open>
  The loop \<open>for rlen > 0\<close>; \<open>send\<close> is false at the head of every round.  Its progress
  depends on the counters, so it is a partial function: \<open>None\<close> would be a run that never
  ends.  It returns the read request \<open>d\<close> with the state.
\<close>

partial_function (option) i2c_read_loop :: "int \<Rightarrow> byte list \<Rightarrow> int \<Rightarrow> i2c_st \<Rightarrow> (error option \<times> byte list \<times> i2c_st) option" where
  [code]: "i2c_read_loop rlen dd maxRLen s =
     (if 0 < rlen then
        (let send = i2c_rsend rlen s;
             dlen = i2c_rdlen rlen s;
             d1 = i2c_rreq maxRLen dlen dd;
             maxRLen' = (if maxRLen = 64 then 63 else maxRLen);
             s2 = i2c_rcount send dlen s
         in if send then
              (let r1 = i2c_flush d1 s2
               in if fst r1 \<noteq> None then Some (fst r1, d1, snd r1)
                  else i2c_read_loop (rlen - dlen) [] maxRLen' (snd r1))
            else i2c_read_loop (rlen - dlen) d1 maxRLen' s2)
      else Some (None, dd, s))"

text \<open>The block \<open>if wlen := len(w); wlen != 0 { ... }\<close>.\<close>

definition i2c_write_part :: "16 word \<Rightarrow> byte list \<Rightarrow> i2c_st \<Rightarrow> error option \<times> i2c_st" where
  "i2c_write_part addr w s =
     (if length w \<noteq> 0 then
        (let (err, s1) = pack [CmdI2CStart] s
         in if err \<noteq> None then (err, s1)
            else i2c_write_loop addr w 0 [CmdI2CWrite] s1)
      else (None, s))"

text \<open>The block \<open>if rlen := len(r); rlen != 0 { ... }\<close>.\<close>

definition i2c_read_part :: "16 word \<Rightarrow> i2c_st \<Rightarrow> (error option \<times> i2c_st) option" where
  "i2c_read_part addr s =
     (if length (i2c_r s) \<noteq> 0 then
        (case i2c_read_loop (int (length (i2c_r s)))
                [CmdI2CStart, CmdI2CWrite OR 1, ucast (push_bit 1 addr) OR 1] 64
                (s\<lparr>hasRead := True\<rparr>) of
           None \<Rightarrow> None
         | Some (err, dd, s1) \<Rightarrow>
             if err \<noteq> None then Some (err, s1)
             else
               let s2 = (if \<not> hasRead s1 then s1\<lparr>toRead := toRead s1 + 1\<rparr> else s1)
               in Some (pack (dd @ [CmdI2CRead]) s2))
      else Some (None, s))"

text \<open>The tail of \<open>I2C\<close>: pack the stop command, then the last \<open>write()\<close>.\<close>

definition i2c_stop_part :: "i2c_st \<Rightarrow> error option \<times> i2c_st" where
  "i2c_stop_part s = i2c_flush [CmdI2CStop] s"

definition i2c_init :: "byte list \<Rightarrow> hid \<Rightarrow> i2c_st" where
  "i2c_init r d =
     \<lparr>i2c_p = sl_make 0 512, toWrite = 0, toRead = 0, rpos = 0, hasRead = False,
      i2c_r = r, i2c_dev = d\<rparr>"

text \<open>\<open>I2C\<close> returns the error, the caller's buffer \<open>r\<close> as the call leaves it, and the device.\<close>

definition I2C :: "16 word \<Rightarrow> byte list \<Rightarrow> byte list \<Rightarrow> hid \<Rightarrow> (error option \<times> byte list \<times> hid) option" where
  "I2C addr w r d =
     (let (e1, s1) = i2c_write_part addr w (i2c_init r d)
      in if e1 \<noteq> None then Some (e1, i2c_r s1, i2c_dev s1)
         else
           (case i2c_read_part addr s1 of
              None \<Rightarrow> None
            | Some (e2, s2) \<Rightarrow>
                if e2 \<noteq> None then Some (e2, i2c_r s2, i2c_dev s2)
                else
                  let (e3, s3) = i2c_stop_part s2
                  in Some (e3, i2c_r s3, i2c_dev s3)))"

section \<open>Observations on the transport\<close>

text \<open>
  A frame is length-prefixed when its first two bytes, read as a little-endian number, count
  the bytes that follow them.  \<open>emitted d d'\<close> are the frames written between the device
  states \<open>d\<close> and \<open>d'\<close>; \<open>frames_ok d d'\<close> says that \<open>d'\<close> kept what \<open>d\<close> had written and that
  every frame written since is length-prefixed.
\<close>

definition length_prefixed :: "byte list \<Rightarrow> bool" where
  "length_prefixed f = (2 \<le> length f \<and> unat (f ! 0) + 256 * unat (f ! 1) = length f - 2)"

definition emitted :: "hid \<Rightarrow> hid \<Rightarrow> byte list list" where
  "emitted d d' = drop (length (outbox d)) (outbox d')"

definition frames_ok :: "hid \<Rightarrow> hid \<Rightarrow> bool" where
  "frames_ok d d' =
     (take (length (outbox d)) (outbox d') = outbox d \<and> list_all length_prefixed (emitted d d'))"

text \<open>
  The response bytes read back so far: every read of I2C fills a buffer of 2 header bytes
  and the response bytes behind them.
\<close>

definition consumed :: "hid \<Rightarrow> int" where
  "consumed d = sum_list (map (\<lambda>n. int n - 2) (rdlens d))"

section \<open>Loop invariants\<close>

text \<open>
  At the head of the loop of \<open>SPI\<close> the frame buffer sits in its 512-byte array and, while
  data remains, it is either empty between two operations or holds the two length bytes
  of the next packet inside an operation.
\<close>

definition spi_inv :: "byte list \<Rightarrow> int \<Rightarrow> int \<Rightarrow> spi_st \<Rightarrow> bool" where
  "spi_inv w pos olen s =
     (sl_cap (spi_p s) = 512 \<and> sl_len (spi_p s) \<le> 509 \<and> 0 \<le> pos
      \<and> (pos < int (length w) \<longrightarrow>
            (olen = 0 \<and> sl_len (spi_p s) = 0) \<or> (0 < olen \<and> olen < maxOpLen \<and> sl_len (spi_p s) = 2)))"

text \<open>
  For I2C: \<open>pending\<close> counts the response bytes the counters still wait for.  A state is
  \<open>i2c_good\<close> when the counters are not negative, a pending read-request acknowledgement
  behind pending write acknowledgements comes with read data, the frame buffer sits in its
  512-byte array with at most 509 bytes, and the pending write acknowledgements are fewer
  than the bytes in the buffer.  \<open>same_counts\<close> relates two states between which nothing
  was read back; \<open>cleared\<close> is a state with nothing pending; \<open>settled s s'\<close> says that
  between \<open>s\<close> and \<open>s'\<close> either nothing was read back or all that was pending in \<open>s\<close> was.
\<close>

definition pending :: "i2c_st \<Rightarrow> int" where
  "pending s = toWrite s + toRead s + (if hasRead s then 1 else 0)"

definition i2c_good :: "i2c_st \<Rightarrow> bool" where
  "i2c_good s =
     (0 \<le> toWrite s \<and> 0 \<le> toRead s \<and> (hasRead s \<and> 0 < toWrite s \<longrightarrow> 0 < toRead s)
      \<and> sl_cap (i2c_p s) = 512 \<and> sl_len (i2c_p s) \<le> 509
      \<and> (toWrite s < sl_len (i2c_p s) \<or> toWrite s = 0))"

definition same_counts :: "i2c_st \<Rightarrow> i2c_st \<Rightarrow> bool" where
  "same_counts s s' =
     (toWrite s' = toWrite s \<and> toRead s' = toRead s \<and> hasRead s' = hasRead s
      \<and> i2c_r s' = i2c_r s \<and> rpos s' = rpos s \<and> rdlens (i2c_dev s') = rdlens (i2c_dev s))"

definition cleared :: "i2c_st \<Rightarrow> bool" where
  "cleared s = (toWrite s = 0 \<and> toRead s = 0 \<and> \<not> hasRead s)"

definition settled :: "i2c_st \<Rightarrow> i2c_st \<Rightarrow> bool" where
  "settled s s' =
     (same_counts s s'
      \<or> (cleared s' \<and> consumed (i2c_dev s') = consumed (i2c_dev s) + pending s))"

text \<open>
  At the head of the loop \<open>for rlen > 0\<close> of the read part: the counters are not negative
  and leave room in a response frame, \<open>rlen\<close> is not negative, a pending read-request
  acknowledgement still has read data to come with, and the read request \<open>d\<close> has at most
  one command byte for every 63 bytes counted in \<open>toRead\<close>, behind its first 3 bytes.
\<close>

definition i2c_rinv :: "int \<Rightarrow> byte list \<Rightarrow> i2c_st \<Rightarrow> bool" where
  "i2c_rinv rlen dd s =
     (0 \<le> toWrite s \<and> 0 \<le> toRead s \<and> sl_cap (i2c_p s) = 512 \<and> sl_len (i2c_p s) \<le> 509
      \<and> (toWrite s < sl_len (i2c_p s) \<or> toWrite s = 0)
      \<and> toWrite s + toRead s \<le> 509 \<and> 0 \<le> rlen
      \<and> (hasRead s \<longrightarrow> 1 \<le> toRead s + rlen)
      \<and> 63 * int (length dd) \<le> toRead s + 252
      \<and> (0 < rlen \<longrightarrow> 63 * int (length dd) + 63 \<le> toRead s + 252))"

section \<open>Devices used in the examples\<close>

text \<open>A device that accepts every write and answers the reads with the given replies.\<close>

definition scripted :: "byte list list \<Rightarrow> hid" where
  "scripted replies = \<lparr>outbox = [], rdlens = [], inbox = map Some replies, wfail = []\<rparr>"

text \<open>The acknowledgement of an SPI write packet, as the comment in \<open>SPI\<close> spells it.\<close>

definition spi_ack :: "byte list" where
  "spi_ack = [0x03, 0x00, 0xc4, 0x01, 0x00]"

section \<open>Facts about bytes, slices and the transport\<close>

declare spi_confirm.simps [simp del]
declare UART_Write_loop.simps [simp del]
declare i2c_confirm_writes.simps [simp del]
declare i2c_write_loop.simps [simp del]

lemma and_80: "((x :: byte) AND 0x80 \<noteq> 0) = bit x 7"
  using and_exp_eq_0_iff_not_bit [of x 7] by simp

lemma and_40: "((x :: byte) AND 0x40 \<noteq> 0) = bit x 6"
  using and_exp_eq_0_iff_not_bit [of x 6] by simp

lemma and_c0: "((x :: byte) AND 0xc0 = 0) = (\<not> bit x 7 \<and> \<not> bit x 6)"
proof -
  have "(0xc0 :: byte) = 0x80 OR 0x40" by simp
  then have "x AND 0xc0 = (x AND 0x80) OR (x AND 0x40)"
    by (simp only: bit.conj_disj_distrib)
  then have "(x AND 0xc0 = 0) = (x AND 0x80 = 0 \<and> x AND 0x40 = 0)"
    by (simp only: or_eq_0_iff)
  then show ?thesis
    using and_80 [of x] and_40 [of x] by blast
qed

lemma pos_pin: "pin \<le> 7 \<Longrightarrow> unat (5 + pin :: byte) = 5 + unat pin"
  by (simp add: unat_word_ariths word_le_nat_alt)

lemma pos_pin_lt: "pin \<le> 7 \<Longrightarrow> unat (5 + pin :: byte) < 13"
  by (simp add: unat_word_ariths word_le_nat_alt)

lemma length_copy_bytes: "length (copy_bytes dst src) = length dst"
  by (simp add: copy_bytes_def)



lemma dev_write_ok:
  "dev_write d f = (None, d') \<Longrightarrow>
     outbox d' = outbox d @ [f] \<and> rdlens d' = rdlens d \<and> inbox d' = inbox d"
  by (auto simp: dev_write_def split: list.splits if_splits)

lemma dev_write_err:
  "dev_write d f = (Some e, d') \<Longrightarrow>
     outbox d' = outbox d \<and> rdlens d' = rdlens d \<and> inbox d' = inbox d"
  by (auto simp: dev_write_def split: list.splits if_splits)

lemma dev_read_ok:
  "dev_read d buf = (None, buf', d') \<Longrightarrow>
     outbox d' = outbox d \<and> rdlens d' = rdlens d @ [length buf] \<and> length buf' = length buf"
  by (auto simp: dev_read_def length_copy_bytes split: list.splits option.splits)

lemma dev_read_err:
  "dev_read d buf = (Some e, buf', d') \<Longrightarrow>
     outbox d' = outbox d \<and> rdlens d' = rdlens d \<and> buf' = buf"
  by (auto simp: dev_read_def split: list.splits option.splits)

lemma frames_ok_iff:
  "frames_ok d d' = (\<exists>fs. outbox d' = outbox d @ fs \<and> list_all length_prefixed fs)"
proof
  assume "frames_ok d d'"
  then have "outbox d' = outbox d @ emitted d d'" "list_all length_prefixed (emitted d d')"
    unfolding frames_ok_def emitted_def by (metis append_take_drop_id, simp)
  then show "\<exists>fs. outbox d' = outbox d @ fs \<and> list_all length_prefixed fs" by blast
next
  assume "\<exists>fs. outbox d' = outbox d @ fs \<and> list_all length_prefixed fs"
  then show "frames_ok d d'" by (auto simp: frames_ok_def emitted_def)
qed

lemma frames_ok_same: "outbox d' = outbox d \<Longrightarrow> frames_ok d d'"
  by (simp add: frames_ok_iff)

lemma frames_ok_refl: "frames_ok d d"
  by (simp add: frames_ok_iff)

lemma frames_ok_trans: "frames_ok d d' \<Longrightarrow> frames_ok d' d'' \<Longrightarrow> frames_ok d d''"
  by (auto simp: frames_ok_iff)

lemma frames_ok_one: "outbox d' = outbox d @ [f] \<Longrightarrow> length_prefixed f \<Longrightarrow> frames_ok d d'"
  by (auto simp: frames_ok_iff)

lemma header_bytes:
  assumes "0 \<le> n" "n < 65536"
  shows "unat (byte_of (n AND 0xff)) + 256 * unat (byte_of (drop_bit 8 n AND 0xff)) = nat n"
proof -
  have m: "(0xff :: int) = mask 8" by (simp add: mask_eq_exp_minus_1)
  have lo: "n AND 0xff = n mod 256"
    unfolding m by (simp add: take_bit_eq_mod flip: take_bit_eq_mask)
  have hi: "drop_bit 8 n AND 0xff = (n div 256) mod 256"
    unfolding m by (simp add: take_bit_eq_mod drop_bit_eq_div flip: take_bit_eq_mask)
  have hi2: "(n div 256) mod 256 = n div 256" using assms by simp
  have u1: "unat (byte_of (n mod 256)) = nat (n mod 256)"
    by (simp add: byte_of_def unat_eq_nat_uint uint_word_of_int)
  have u2: "unat (byte_of (n div 256)) = nat (n div 256)"
    using assms by (simp add: byte_of_def unat_eq_nat_uint uint_word_of_int)
  show ?thesis
    unfolding lo hi hi2 u1 u2 using assms
    by (simp add: nat_add_distrib nat_mult_distrib nat_div_distrib nat_mod_distrib)
qed

lemma header_prefixed:
  assumes "2 \<le> length xs" "length xs < 65538"
  shows "length_prefixed (xs[0 := byte_of ((int (length xs) - 2) AND 0xff),
                             1 := byte_of (drop_bit 8 (int (length xs) - 2) AND 0xff)])"
proof -
  obtain a b ys where xs: "xs = a # b # ys"
    using assms by (cases xs; cases "tl xs") auto
  show ?thesis
    using assms header_bytes [of "int (length xs) - 2"]
    by (simp add: length_prefixed_def xs)
qed

lemma sl_upto_len:
  "sl_upto p n = Some q \<Longrightarrow>
     length (fst q) = nat n \<and> length (fst q) + length (snd q) = length (fst p) + length (snd p)"
  by (auto simp: sl_upto_def split: if_splits)

lemma sl_upto_fst: "sl_upto p n = Some q \<Longrightarrow> fst q = take (nat n) (fst p @ snd p)"
  by (auto simp: sl_upto_def split: if_splits)

lemma length_set_header [simp]: "length (set_header xs n) = length xs"
  by (simp add: set_header_def)

lemma set_header_eq:
  assumes "2 \<le> length xs"
  shows "set_header xs n = byte_of (n AND 0xff) # byte_of (drop_bit 8 n AND 0xff) # drop 2 xs"
proof -
  obtain a b ys where xs: "xs = a # b # ys"
    using assms by (cases xs; cases "tl xs") auto
  show ?thesis by (simp add: set_header_def xs)
qed

lemma length_prefixedI:
  assumes "length f = 2 + nat n" "0 \<le> n" "n < 65536"
    and "f ! 0 = byte_of (n AND 0xff)" "f ! 1 = byte_of (drop_bit 8 n AND 0xff)"
  shows "length_prefixed f"
  using assms header_bytes [of n] by (simp add: length_prefixed_def)

lemma set_header_prefixed:
  "2 \<le> length xs \<Longrightarrow> length xs < 65538 \<Longrightarrow> length_prefixed (set_header xs (int (length xs) - 2))"
  by (rule length_prefixedI [where n = "int (length xs) - 2"]) (simp_all add: set_header_eq)


lemma sl_cap_append: "length xs \<le> length (snd p) \<Longrightarrow> sl_cap (sl_append p xs) = sl_cap p"
  by (simp add: sl_cap_def sl_append_def)

lemma sl_len_append: "sl_len (sl_append p xs) = sl_len p + int (length xs)"
  by (simp add: sl_len_def sl_append_def)

lemma sl_upto_cap: "sl_upto p n = Some q \<Longrightarrow> sl_cap q = sl_cap p \<and> sl_len q = n"
  by (auto simp: sl_upto_def sl_cap_def sl_len_def split: if_splits)

lemma sl_upto_Some: "0 \<le> n \<Longrightarrow> nat n \<le> sl_cap p \<Longrightarrow> \<exists>q. sl_upto p n = Some q"
  by (simp add: sl_upto_def sl_cap_def)

section \<open>GPIO: pin state check and decoding\<close>

text \<open>
  Claim C4, corrected.  After the header check \<open>WritePin\<close> looks at the echoed byte of the
  pin.  With input requested the call fails exactly when bit 7 is set.  With output low
  requested it fails exactly when bit 7 is clear, and bit 6 is not looked at.  With output
  high requested it succeeds when bits 7 and 6 are both set and fails when both are clear.
\<close>

theorem WritePin_checks:
  assumes "pin \<le> 7"
    and "dev_write d (gpio_frame[5 + unat pin := (if output then (if level then 0xf8 else 0xf0) else 0xc0)]) = (None, d1)"
    and "dev_read d1 (gpio_frame[5 + unat pin := (if output then (if level then 0xf8 else 0xf0) else 0xc0)]) = (None, echo, d2)"
    and "echo ! 0 = 0x0b" and "echo ! 2 = 0xcc"
  shows "(\<not> output \<longrightarrow>
            WritePin pin output level d = ((if bit (echo ! (5 + unat pin)) 7 then Some ErrGpioInput else None), d2))
       \<and> (output \<and> \<not> level \<longrightarrow>
            WritePin pin output level d = ((if bit (echo ! (5 + unat pin)) 7 then None else Some ErrGpioOutput), d2))
       \<and> (output \<and> level \<and> bit (echo ! (5 + unat pin)) 7 \<and> bit (echo ! (5 + unat pin)) 6 \<longrightarrow>
            WritePin pin output level d = (None, d2))
       \<and> (output \<and> level \<and> \<not> bit (echo ! (5 + unat pin)) 7 \<and> \<not> bit (echo ! (5 + unat pin)) 6 \<longrightarrow>
            WritePin pin output level d = (Some ErrGpioOutput, d2))"
  using assms pos_pin_lt [of pin] and_80 [of "echo ! (5 + unat pin)"] and_c0 [of "echo ! (5 + unat pin)"]
  by (auto simp add: WritePin_def pos_pin Let_def)

text \<open>
  The four cases of \<open>WritePin_checks\<close> at pin 4: input with bit 7 clear, output low with
  bit 7 set, output high with both bits set, output high with both bits clear.
\<close>

theorem WritePin_checks_witness:
  "(4 :: byte) \<le> 7
   \<and> fst (WritePin 4 False False (scripted [[0x0b, 0x00, 0xcc, 0x08, 0x00, 0, 0, 0, 0, 0x40, 0, 0, 0]])) = None
   \<and> fst (WritePin 4 True False (scripted [[0x0b, 0x00, 0xcc, 0x08, 0x00, 0, 0, 0, 0, 0x80, 0, 0, 0]])) = None
   \<and> fst (WritePin 4 True True (scripted [[0x0b, 0x00, 0xcc, 0x08, 0x00, 0, 0, 0, 0, 0xc0, 0, 0, 0]])) = None
   \<and> fst (WritePin 4 True True (scripted [[0x0b, 0x00, 0xcc, 0x08, 0x00, 0, 0, 0, 0, 0x08, 0, 0, 0]]))
       = Some ErrGpioOutput"
  using
    WritePin_checks [of 4 "scripted [[0x0b, 0x00, 0xcc, 0x08, 0x00, 0, 0, 0, 0, 0x40, 0, 0, 0]]" False False
      "\<lparr>outbox = [[0x0b, 0x00, 0xcc, 0x08, 0x00, 0, 0, 0, 0, 0xc0, 0, 0, 0]], rdlens = [],
        inbox = [Some [0x0b, 0x00, 0xcc, 0x08, 0x00, 0, 0, 0, 0, 0x40, 0, 0, 0]], wfail = []\<rparr>"
      "[0x0b, 0x00, 0xcc, 0x08, 0x00, 0, 0, 0, 0, 0x40, 0, 0, 0]"
      "\<lparr>outbox = [[0x0b, 0x00, 0xcc, 0x08, 0x00, 0, 0, 0, 0, 0xc0, 0, 0, 0]], rdlens = [13],
        inbox = [], wfail = []\<rparr>"]
    WritePin_checks [of 4 "scripted [[0x0b, 0x00, 0xcc, 0x08, 0x00, 0, 0, 0, 0, 0x80, 0, 0, 0]]" True False
      "\<lparr>outbox = [[0x0b, 0x00, 0xcc, 0x08, 0x00, 0, 0, 0, 0, 0xf0, 0, 0, 0]], rdlens = [],
        inbox = [Some [0x0b, 0x00, 0xcc, 0x08, 0x00, 0, 0, 0, 0, 0x80, 0, 0, 0]], wfail = []\<rparr>"
      "[0x0b, 0x00, 0xcc, 0x08, 0x00, 0, 0, 0, 0, 0x80, 0, 0, 0]"
      "\<lparr>outbox = [[0x0b, 0x00, 0xcc, 0x08, 0x00, 0, 0, 0, 0, 0xf0, 0, 0, 0]], rdlens = [13],
        inbox = [], wfail = []\<rparr>"]
    WritePin_checks [of 4 "scripted [[0x0b, 0x00, 0xcc, 0x08, 0x00, 0, 0, 0, 0, 0xc0, 0, 0, 0]]" True True
      "\<lparr>outbox = [[0x0b, 0x00, 0xcc, 0x08, 0x00, 0, 0, 0, 0, 0xf8, 0, 0, 0]], rdlens = [],
        inbox = [Some [0x0b, 0x00, 0xcc, 0x08, 0x00, 0, 0, 0, 0, 0xc0, 0, 0, 0]], wfail = []\<rparr>"
      "[0x0b, 0x00, 0xcc, 0x08, 0x00, 0, 0, 0, 0, 0xc0, 0, 0, 0]"
      "\<lparr>outbox = [[0x0b, 0x00, 0xcc, 0x08, 0x00, 0, 0, 0, 0, 0xf8, 0, 0, 0]], rdlens = [13],
        inbox = [], wfail = []\<rparr>"]
    WritePin_checks [of 4 "scripted [[0x0b, 0x00, 0xcc, 0x08, 0x00, 0, 0, 0, 0, 0x08, 0, 0, 0]]" True True
      "\<lparr>outbox = [[0x0b, 0x00, 0xcc, 0x08, 0x00, 0, 0, 0, 0, 0xf8, 0, 0, 0]], rdlens = [],
        inbox = [Some [0x0b, 0x00, 0xcc, 0x08, 0x00, 0, 0, 0, 0, 0x08, 0, 0, 0]], wfail = []\<rparr>"
      "[0x0b, 0x00, 0xcc, 0x08, 0x00, 0, 0, 0, 0, 0x08, 0, 0, 0]"
      "\<lparr>outbox = [[0x0b, 0x00, 0xcc, 0x08, 0x00, 0, 0, 0, 0, 0xf8, 0, 0, 0]], rdlens = [13],
        inbox = [], wfail = []\<rparr>"]
  by (simp add: scripted_def dev_write_def dev_read_def gpio_frame_def copy_bytes_def)

text \<open>
  Claim C4 as stated fails: input is requested on pin 0 and the echoed byte has bit 7 clear,
  so the claim asks for a failure, and \<open>WritePin\<close> succeeds.
\<close>

theorem WritePin_input_counterexample:
  "\<not> bit ([0x0b, 0x00, 0xcc, 0x08, 0x00, 0x00, 0, 0, 0, 0, 0, 0, 0 :: byte] ! 5) 7
   \<and> fst (WritePin 0 False False (scripted [[0x0b, 0x00, 0xcc, 0x08, 0x00, 0x00, 0, 0, 0, 0, 0, 0, 0]])) = None"
  by (simp add: WritePin_def scripted_def dev_write_def dev_read_def gpio_frame_def copy_bytes_def)

text \<open>
  Claim C9.  \<open>ReadPin\<close> decodes the echoed byte at offset 5 + pin: with bit 7 set the pin
  is an output and the level is bit 6; with bit 7 clear the pin is an input and the level
  is the negation of bit 6.
\<close>

theorem ReadPin_decodes:
  assumes "pin \<le> 7"
    and "dev_write d gpio_frame = (None, d1)"
    and "dev_read d1 gpio_frame = (None, echo, d2)"
    and "echo ! 0 = 0x0b" and "echo ! 2 = 0xcc"
  shows "ReadPin pin d =
           ((if bit (echo ! (5 + unat pin)) 7 then bit (echo ! (5 + unat pin)) 6
             else \<not> bit (echo ! (5 + unat pin)) 6), None, d2)"
  using assms pos_pin_lt [of pin]
  by (simp add: ReadPin_def pos_pin and_80 and_40)

theorem ReadPin_decodes_witness:
  "(7 :: byte) \<le> 7
   \<and> ReadPin 7 (scripted [[0x0b, 0x00, 0xcc, 0x08, 0x00, 0, 0, 0, 0, 0, 0, 0, 0x40]])
       = (False, None, \<lparr>outbox = [gpio_frame], rdlens = [13], inbox = [], wfail = []\<rparr>)"
  using ReadPin_decodes [of 7 "scripted [[0x0b, 0x00, 0xcc, 0x08, 0x00, 0, 0, 0, 0, 0, 0, 0, 0x40]]"
      "\<lparr>outbox = [gpio_frame], rdlens = [],
        inbox = [Some [0x0b, 0x00, 0xcc, 0x08, 0x00, 0, 0, 0, 0, 0, 0, 0, 0x40]], wfail = []\<rparr>"
      "[0x0b, 0x00, 0xcc, 0x08, 0x00, 0, 0, 0, 0, 0, 0, 0, 0x40]"
      "\<lparr>outbox = [gpio_frame], rdlens = [13], inbox = [], wfail = []\<rparr>"]
  by (simp add: scripted_def dev_write_def dev_read_def gpio_frame_def copy_bytes_def)

section \<open>SetSPI: the acknowledgement check\<close>

text \<open>
  Claim C3 against the code.  The device answers the configuration frame with byte 2 equal
  to \<open>0xc0\<close> and byte 3 equal to \<open>0x00\<close> instead of \<open>0x01\<close>; \<open>SetSPI\<close> returns no error.
\<close>

theorem SetSPI_accepts_wrong_status:
  "fst (SetSPI 0 0 0 (scripted [[0x04, 0x00, 0xc0, 0x00, 0x00, 0x00]])) = None"
  by (simp add: SetSPI_def spi_config_frame_def spi_mode_bytes_def dev_write_def dev_read_def
      copy_bytes_def scripted_def)

section \<open>SPI: read requests\<close>

text \<open>
  Claim C8.  With a non-empty read buffer \<open>SPI\<close> returns the unsupported-operation error
  and the device is as it was: nothing written, nothing read.
\<close>

theorem SPI_read_unsupported: "r \<noteq> [] \<Longrightarrow> SPI w r d = Some (Some ErrUnsupported, d)"
  by (simp add: SPI_def)

theorem SPI_read_unsupported_witness:
  "[0x00 :: byte] \<noteq> []
   \<and> SPI [0x9f] [0x00] (scripted [spi_ack]) = Some (Some ErrUnsupported, scripted [spi_ack])"
  using SPI_read_unsupported [of "[0x00]" "[0x9f]" "scripted [spi_ack]"] by simp

section \<open>UART: receiving a frame\<close>





section \<open>UART: the frames of Write\<close>

lemma uart_dlen_bounds:
  "0 \<le> pos \<Longrightarrow> pos < int (length b) \<Longrightarrow> 0 < uart_dlen b pos \<and> uart_dlen b pos \<le> 510 \<and> uart_dlen b pos \<le> uart_plen b"
  by (auto simp: uart_dlen_def uart_plen_def)

lemma uart_chunk_frame:
  assumes c: "uart_chunk b p pos = Some p3"
    and inv: "int (length (fst p)) = uart_plen b + 2"
    and pos: "pos < int (length b)"
  shows "length_prefixed (fst p3)
         \<and> (uart_dlen b pos = uart_plen b \<longrightarrow> length (fst p3) = length (fst p))"
proof -
  let ?n = "uart_dlen b pos"
  let ?p1 = "set_header (fst p) ?n"
  let ?f = "take 2 ?p1 @ copy_bytes (drop 2 ?p1) (take (nat ?n) (drop (nat pos) b))"
  have ok: "0 \<le> pos" "2 \<le> length (fst p)"
    using c by (auto simp: uart_chunk_def Let_def split: if_splits)
  have n: "0 < ?n" "?n \<le> 510" "?n \<le> uart_plen b"
    using uart_dlen_bounds [OF ok(1) pos] by auto
  have lf: "length ?f = length (fst p)" using ok by (simp add: length_copy_bytes)
  have fe: "?f = byte_of (?n AND 0xff) # byte_of (drop_bit 8 ?n AND 0xff)
                  # copy_bytes (drop 2 (fst p)) (take (nat ?n) (drop (nat pos) b))"
    using ok by (simp add: set_header_eq)
  have hd: "?f ! 0 = byte_of (?n AND 0xff)" "?f ! 1 = byte_of (drop_bit 8 ?n AND 0xff)"
    unfolding fe by simp_all
  show ?thesis
  proof (cases "?n = uart_plen b")
    case True
    then have "p3 = (?f, snd p)"
      using c ok by (simp add: uart_chunk_def Let_def)
    moreover have "length ?f = 2 + nat ?n" using lf inv True n by simp
    ultimately show ?thesis
      using n hd lf by (auto intro!: length_prefixedI [where n = ?n])
  next
    case False
    then have up: "sl_upto (?f, snd p) (2 + ?n) = Some p3"
      using c ok by (simp add: uart_chunk_def Let_def)
    have l: "length (fst p3) = 2 + nat ?n"
      using sl_upto_len [OF up] n by (simp add: nat_add_distrib)
    have f: "fst p3 = take (2 + nat ?n) (?f @ snd p)"
      using sl_upto_fst [OF up] n by (simp add: nat_add_distrib)
    have "fst p3 ! 0 = byte_of (?n AND 0xff)" "fst p3 ! 1 = byte_of (drop_bit 8 ?n AND 0xff)"
      unfolding f fe using n by simp_all
    then show ?thesis
      using n False l by (auto intro!: length_prefixedI [where n = ?n])
  qed
qed

lemma UART_Write_loop_frames:
  "(pos < int (length b) \<longrightarrow> int (length (fst p)) = uart_plen b + 2) \<Longrightarrow>
   frames_ok d (snd (snd (UART_Write_loop b p pos d)))"
proof (induction b p pos d rule: UART_Write_loop.induct)
  case (1 b p pos d)
  show ?case
  proof (cases "pos < int (length b)")
    case False
    then show ?thesis by (subst UART_Write_loop.simps) (simp add: frames_ok_refl)
  next
    case True
    show ?thesis
    proof (cases "uart_chunk b p pos")
      case None
      with True show ?thesis by (subst UART_Write_loop.simps) (simp add: frames_ok_refl)
    next
      case (Some p3)
      obtain werr d1 where dw: "dev_write d (fst p3) = (werr, d1)" by (cases "dev_write d (fst p3)")
      have inv: "int (length (fst p)) = uart_plen b + 2" using True 1(2) by simp
      note fr = uart_chunk_frame [OF Some inv True]
      show ?thesis
      proof (cases werr)
        case (Some e)
        then show ?thesis
          using True \<open>uart_chunk b p pos = Some p3\<close> dw dev_write_err [of d "fst p3" e d1]
          by (subst UART_Write_loop.simps) (simp add: frames_ok_same)
      next
        case None
        have step: "frames_ok d d1"
          using dev_write_ok [of d "fst p3" d1] dw None fr by (auto intro: frames_ok_one)
        have "frames_ok d1 (snd (snd (UART_Write_loop b p3 (pos + uart_dlen b pos) d1)))"
        proof (rule 1(1) [OF True \<open>uart_chunk b p pos = Some p3\<close> dw [symmetric] refl])
          show "\<not> werr \<noteq> None" using None by simp
          have "0 \<le> pos" using \<open>uart_chunk b p pos = Some p3\<close>
            by (auto simp: uart_chunk_def Let_def split: if_splits)
          then show "pos + uart_dlen b pos < int (length b) \<longrightarrow> int (length (fst p3)) = uart_plen b + 2"
            using fr inv True by (auto simp: uart_dlen_def uart_plen_def split: if_splits)
        qed
        moreover have "UART_Write_loop b p pos d = UART_Write_loop b p3 (pos + uart_dlen b pos) d1"
          using True \<open>uart_chunk b p pos = Some p3\<close> dw None
          by (subst UART_Write_loop.simps) simp
        ultimately show ?thesis
          using step by (auto intro: frames_ok_trans)
      qed
    qed
  qed
qed

lemma UART_Write_frames: "frames_ok d (snd (snd (UART_Write b d)))"
  unfolding UART_Write_def
  by (rule UART_Write_loop_frames) (simp add: sl_make_def uart_plen_def)

section \<open>SPI: the loop ends and its frames are length-prefixed\<close>

lemma spi_confirm_facts:
  "spi_confirm s = (e, s') \<Longrightarrow>
     outbox (spi_dev s') = outbox (spi_dev s) \<and> sl_cap (spi_p s') = sl_cap (spi_p s)"
proof (induction s arbitrary: e s' rule: spi_confirm.induct)
  case (1 s)
  note run = 1(2) [unfolded spi_confirm.simps [of s]]
  show ?case
  proof (cases "0 < sent s")
    case False
    with run show ?thesis by simp
  next
    case True
    show ?thesis
    proof (cases "sl_upto (spi_p s) 5")
      case None
      with True run show ?thesis by simp
    next
      case (Some p5)
      obtain rerr buf d1 where dr: "dev_read (spi_dev s) (fst p5) = (rerr, buf, d1)"
        by (cases "dev_read (spi_dev s) (fst p5)")
      let ?s1 = "s\<lparr>spi_p := (buf, snd p5), spi_dev := d1\<rparr>"
      have ob: "outbox d1 = outbox (spi_dev s)" and lb: "length buf = length (fst p5)"
        using dr dev_read_ok [of "spi_dev s" "fst p5" buf d1] dev_read_err [of "spi_dev s" "fst p5" _ buf d1]
        by (cases rerr; auto)+
      have cap: "sl_cap (buf, snd p5) = sl_cap (spi_p s)"
        using sl_upto_cap [OF Some] lb by (simp add: sl_cap_def)
      show ?thesis
      proof (cases "rerr \<noteq> None \<or> (buf ! 2 \<noteq> 0xc4 \<and> buf ! 3 \<noteq> 0x01)")
        case True
        then have "s' = ?s1"
          using run \<open>0 < sent s\<close> Some dr by (auto simp: Let_def split: if_splits)
        then show ?thesis using ob cap by simp
      next
        case False
        then have eq: "spi_confirm (?s1\<lparr>sent := sent ?s1 - 1\<rparr>) = (e, s')"
          using run \<open>0 < sent s\<close> Some dr by (auto simp: Let_def split: if_splits)
        have "outbox (spi_dev s') = outbox (spi_dev (?s1\<lparr>sent := sent ?s1 - 1\<rparr>))
            \<and> sl_cap (spi_p s') = sl_cap (spi_p (?s1\<lparr>sent := sent ?s1 - 1\<rparr>))"
          by (rule 1(1) [OF \<open>0 < sent s\<close> Some dr [symmetric] refl refl refl _ _ eq]) (use False in auto)
        then show ?thesis using ob cap by simp
      qed
    qed
  qed
qed

lemma spi_write_facts:
  assumes w: "spi_write fin s = (e, s')" and len: "sl_len (spi_p s) \<le> 65537"
  shows "frames_ok (spi_dev s) (spi_dev s') \<and> sl_cap (spi_p s') = sl_cap (spi_p s)
       \<and> (e = None \<longrightarrow> (if sl_len (spi_p s) \<le> 2 then s' = s else sl_len (spi_p s') = 2))"
proof (cases "sl_len (spi_p s) \<le> 2")
  case True
  then have "s' = s" using w by (simp add: spi_write_def)
  then show ?thesis using True by (simp add: frames_ok_refl)
next
  case False
  let ?f = "set_header (fst (spi_p s)) (sl_len (spi_p s) - 2)"
  obtain werr d1 where dw: "dev_write (spi_dev s) ?f = (werr, d1)"
    by (cases "dev_write (spi_dev s) ?f")
  let ?s1 = "s\<lparr>spi_p := (?f, snd (spi_p s)), spi_dev := d1\<rparr>"
  have pf: "length_prefixed ?f"
    unfolding sl_len_def using False len by (intro set_header_prefixed) (auto simp: sl_len_def)
  have cap1: "sl_cap (spi_p ?s1) = sl_cap (spi_p s)" by (simp add: sl_cap_def)
  show ?thesis
  proof (cases werr)
    case (Some x)
    then have "s' = ?s1" "e \<noteq> None" using w False dw by (auto simp: spi_write_def Let_def)
    then show ?thesis
      using dev_write_err [of "spi_dev s" ?f x d1] dw Some cap1 by (auto simp: frames_ok_same)
  next
    case None
    let ?s2 = "s\<lparr>spi_p := (?f, snd (spi_p s)), spi_dev := d1, sent := sent s + 1\<rparr>"
    obtain cerr s3 where c: "(if fin then spi_confirm ?s2 else (None, ?s2)) = (cerr, s3)"
      by (cases "if fin then spi_confirm ?s2 else (None, ?s2)")
    have s3: "outbox (spi_dev s3) = outbox d1 \<and> sl_cap (spi_p s3) = sl_cap (spi_p s)"
      using c spi_confirm_facts [of ?s2 cerr s3] by (auto simp: sl_cap_def split: if_splits)
    have fr: "frames_ok (spi_dev s) (spi_dev s3)"
      using dev_write_ok [of "spi_dev s" ?f d1] dw None pf s3 by (auto intro: frames_ok_one)
    have res: "(e, s') = (if cerr \<noteq> None then (cerr, s3)
                else (case sl_upto (spi_p s3) 2 of None \<Rightarrow> (Some Panic, s3)
                      | Some p2 \<Rightarrow> (None, s3\<lparr>spi_p := p2\<rparr>)))"
      using w False dw None c by (simp add: spi_write_def Let_def)
    show ?thesis
      using res fr s3 False by (auto split: if_splits option.splits dest: sl_upto_cap)
  qed
qed

lemma spi_begin_facts:
  assumes "spi_inv w pos olen s" "pos < int (length w)"
  shows "sl_cap (spi_p (spi_begin w pos olen s)) = 512"
    and "sl_len (spi_p (spi_begin w pos olen s)) = (if olen = 0 then 5 else 2)"
    and "spi_dev (spi_begin w pos olen s) = spi_dev s"
  using assms
  by (auto simp: spi_inv_def spi_begin_def Let_def sl_append_def sl_cap_def sl_len_def)

lemma spi_dlen_facts:
  assumes "sl_len (spi_p s1) = (if olen = 0 then 5 else 2)" "0 \<le> olen" "olen < maxOpLen" "pos < int (length w)"
  shows "0 < spi_dlen w pos olen s1" and "spi_dlen w pos olen s1 \<le> int (length w) - pos"
    and "sl_len (spi_p s1) + spi_dlen w pos olen s1 \<le> 509"
    and "olen + spi_dlen w pos olen s1 \<le> maxOpLen"
    and "spi_dlen w pos olen s1 < int (length w) - pos \<Longrightarrow>
           sl_len (spi_p s1) + spi_dlen w pos olen s1 = 509 \<or> olen + spi_dlen w pos olen s1 = maxOpLen"
  using assms
  by (auto simp: spi_dlen_def Let_def maxDataLen_def maxOpLen_def split: if_splits)

lemma spi_fill_facts:
  assumes "sl_cap (spi_p s1) = 512" "0 \<le> pos" "0 \<le> dlen" "dlen \<le> int (length w) - pos"
    "sl_len (spi_p s1) + dlen \<le> 509"
  shows "sl_cap (spi_p (spi_fill w pos dlen s1)) = 512"
    and "sl_len (spi_p (spi_fill w pos dlen s1)) = sl_len (spi_p s1) + dlen"
    and "spi_dev (spi_fill w pos dlen s1) = spi_dev s1"
  using assms
  by (auto simp: spi_fill_def sl_append_def sl_cap_def sl_len_def)

lemma spi_send_facts:
  assumes "spi_send s = (e, s')" "sl_len (spi_p s) \<le> 509" "2 < sl_len (spi_p s)"
  shows "frames_ok (spi_dev s) (spi_dev s')" and "sl_cap (spi_p s') = sl_cap (spi_p s)"
    and "e = None \<Longrightarrow> sl_len (spi_p s') = (if sl_len (spi_p s) = 509 then 2 else sl_len (spi_p s))"
  using assms spi_write_facts [of False s e s']
  by (auto simp: spi_send_def maxDataLen_def frames_ok_refl split: if_splits)

lemma spi_finish_facts:
  assumes "spi_finish s = (e, s')" "sl_len (spi_p s) \<le> 509"
  shows "frames_ok (spi_dev s) (spi_dev s')" and "sl_cap (spi_p s') = sl_cap (spi_p s)"
    and "e = None \<Longrightarrow> sl_len (spi_p s') = 0"
proof -
  obtain e1 s1 where w: "spi_write True s = (e1, s1)" by (cases "spi_write True s")
  note f = spi_write_facts [OF w]
  have res: "(e, s') = (if e1 \<noteq> None then (e1, s1)
               else (case sl_upto (spi_p s1) 0 of None \<Rightarrow> (Some Panic, s1)
                     | Some p0 \<Rightarrow> (None, s1\<lparr>spi_p := p0\<rparr>)))"
    using assms(1) w by (simp add: spi_finish_def)
  show "frames_ok (spi_dev s) (spi_dev s')" "sl_cap (spi_p s') = sl_cap (spi_p s)"
    "e = None \<Longrightarrow> sl_len (spi_p s') = 0"
    using res f assms(2) by (auto split: if_splits option.splits dest: sl_upto_cap)
qed

lemma spi_loop_total:
  "spi_inv w pos olen s \<Longrightarrow>
     \<exists>e s'. spi_loop w pos olen s = Some (e, s') \<and> frames_ok (spi_dev s) (spi_dev s')"
proof (induction "nat (int (length w) - pos)" arbitrary: pos olen s rule: less_induct)
  case less
  note inv = less.prems
  show ?case
  proof (cases "pos < int (length w)")
    case False
    obtain e s' where w: "spi_write True s = (e, s')" by (cases "spi_write True s")
    have "frames_ok (spi_dev s) (spi_dev s')"
      using spi_write_facts [OF w] inv by (simp add: spi_inv_def)
    then show ?thesis
      using False w by (subst spi_loop.simps) simp
  next
    case True
    let ?s1 = "spi_begin w pos olen s"
    let ?dlen = "spi_dlen w pos olen ?s1"
    let ?s2 = "spi_fill w pos ?dlen ?s1"
    have pos: "0 \<le> pos" and olen: "0 \<le> olen" "olen < maxOpLen"
      using inv True by (auto simp: spi_inv_def maxOpLen_def maxDataLen_def)
    note b = spi_begin_facts [OF inv True]
    note dl = spi_dlen_facts [OF b(2) olen True]
    have f: "sl_cap (spi_p ?s2) = 512" "sl_len (spi_p ?s2) = sl_len (spi_p ?s1) + ?dlen"
      "spi_dev ?s2 = spi_dev s"
      using spi_fill_facts [OF b(1) pos _ dl(2) dl(3)] dl(1) b(3) by auto
    obtain e1 s3 where send: "spi_send ?s2 = (e1, s3)" by (cases "spi_send ?s2")
    have len2: "sl_len (spi_p ?s2) \<le> 509" "2 < sl_len (spi_p ?s2)"
      using f(2) dl(1) dl(3) b(2) by (auto split: if_splits)
    note sf = spi_send_facts [OF send len2]
    have fr3: "frames_ok (spi_dev s) (spi_dev s3)" using sf(1) f(3) by simp
    have cap3: "sl_cap (spi_p s3) = 512" using sf(2) f(1) by simp
    show ?thesis
    proof (cases e1)
      case (Some x)
      have "spi_loop w pos olen s = Some (e1, s3)"
        using True pos dl(1) send Some by (subst spi_loop.simps) (simp add: Let_def)
      then show ?thesis using fr3 by simp
    next
      case None
      have len3: "sl_len (spi_p s3) = (if sl_len (spi_p ?s2) = 509 then 2 else sl_len (spi_p ?s2))"
        using sf(3) None by simp
      show ?thesis
      proof (cases "olen + ?dlen = maxOpLen")
        case True
        obtain e2 s4 where fin: "spi_finish s3 = (e2, s4)" by (cases "spi_finish s3")
        have l3: "sl_len (spi_p s3) \<le> 509" using len3 len2 by (simp split: if_splits)
        note ff = spi_finish_facts [OF fin l3]
        have fr4: "frames_ok (spi_dev s) (spi_dev s4)" using fr3 ff(1) by (rule frames_ok_trans)
        show ?thesis
        proof (cases e2)
          case (Some x)
          have "spi_loop w pos olen s = Some (e2, s4)"
            using \<open>pos < int (length w)\<close> pos dl(1) send None True fin Some
            by (subst spi_loop.simps) (simp add: Let_def)
          then show ?thesis using fr4 by simp
        next
          case None2: None
          have eq: "spi_loop w pos olen s = spi_loop w (pos + ?dlen) 0 s4"
            using \<open>pos < int (length w)\<close> pos dl(1) send None True fin None2
            by (subst spi_loop.simps) (simp add: Let_def)
          have inv4: "spi_inv w (pos + ?dlen) 0 s4"
            using ff(2) ff(3) cap3 None2 pos dl(1) by (simp add: spi_inv_def)
          have "nat (int (length w) - (pos + ?dlen)) < nat (int (length w) - pos)"
            using dl(1) \<open>pos < int (length w)\<close> by simp
          from less.hyps [OF this inv4] obtain e s' where
            "spi_loop w (pos + ?dlen) 0 s4 = Some (e, s')" "frames_ok (spi_dev s4) (spi_dev s')"
            by blast
          then show ?thesis using eq fr4 by (auto intro: frames_ok_trans)
        qed
      next
        case False
        have eq: "spi_loop w pos olen s = spi_loop w (pos + ?dlen) (olen + ?dlen) s3"
          using \<open>pos < int (length w)\<close> pos dl(1) send None False
          by (subst spi_loop.simps) (simp add: Let_def)
        have inv3: "spi_inv w (pos + ?dlen) (olen + ?dlen) s3"
          using cap3 len3 len2 pos dl olen False f(2) by (auto simp: spi_inv_def split: if_splits)
        have "nat (int (length w) - (pos + ?dlen)) < nat (int (length w) - pos)"
          using dl(1) \<open>pos < int (length w)\<close> by simp
        from less.hyps [OF this inv3] obtain e s' where
          "spi_loop w (pos + ?dlen) (olen + ?dlen) s3 = Some (e, s')" "frames_ok (spi_dev s3) (spi_dev s')"
          by blast
        then show ?thesis using eq fr3 by (auto intro: frames_ok_trans)
      qed
    qed
  qed
qed

lemma SPI_total_frames:
  "\<exists>e d'. SPI w r d = Some (e, d') \<and> frames_ok d d'"
proof (cases "length r \<noteq> 0")
  case True
  then show ?thesis by (simp add: SPI_def frames_ok_refl)
next
  case False
  let ?s0 = "\<lparr>spi_p = sl_make 0 512, sent = 0, spi_dev = d\<rparr>"
  have "spi_inv w 0 0 ?s0"
    by (simp add: spi_inv_def sl_make_def sl_cap_def sl_len_def)
  from spi_loop_total [OF this] obtain e s' where
    "spi_loop w 0 0 ?s0 = Some (e, s')" "frames_ok d (spi_dev s')" by auto
  then show ?thesis using False by (simp add: SPI_def)
qed

section \<open>SPI: packets at the boundary\<close>

lemmas spi_eval = SPI_def spi_write_def spi_begin_def spi_dlen_def spi_fill_def spi_send_def
  spi_finish_def set_header_def sl_make_def sl_len_def sl_append_def sl_upto_def
  maxDataLen_def maxOpLen_def CmdSPIWrite_def dev_write_def dev_read_def copy_bytes_def
  spi_ack_def Let_def spi_confirm.simps

lemma byte_of_numeral [simp]: "byte_of (numeral n) = numeral n" "byte_of 0 = 0" "byte_of 1 = 1"
  by (simp_all add: byte_of_def)

lemma spi_one_packet:
  assumes "0 < length w" "length w \<le> 504" "wfail d = []"
  shows "map_option (outbox \<circ> snd) (SPI w [] d) = Some (outbox d @
       [[byte_of ((3 + int (length w)) AND 0xff), byte_of (drop_bit 8 (3 + int (length w)) AND 0xff), 0xC4,
         byte_of (int (length w)) AND 0xff, byte_of (drop_bit 8 (int (length w))) AND 0xff] @ w])"
  using assms
  apply (simp add: spi_eval)
  apply (subst spi_loop.simps)
  apply (simp add: spi_eval)
  apply (subst spi_loop.simps)
  apply (simp add: spi_eval)
  apply (subst spi_loop.simps)
  apply (simp add: spi_eval)
  apply (auto simp: spi_eval split: list.splits option.splits prod.splits)
  done

lemma spi_504_exact:
  assumes "length w = 504" "wfail d = []"
  shows "SPI w [] d = Some (None, d\<lparr>outbox := outbox d @ [[0xFB, 0x01, 0xC4, 0xF8, 0x01] @ w]\<rparr>)"
  using assms
  apply (simp add: spi_eval)
  apply (subst spi_loop.simps)
  apply (simp add: spi_eval)
  apply (subst spi_loop.simps)
  apply (simp add: spi_eval)
  done

lemma spi_two_packets:
  assumes "504 < length w" "length w \<le> 1010" "wfail d = []" "inbox d = Some spi_ack # Some spi_ack # rest"
  shows "SPI w [] d = Some (None, d\<lparr>outbox := outbox d @
       [[0xFB, 0x01, 0xC4, byte_of (int (length w)) AND 0xff, byte_of (drop_bit 8 (int (length w))) AND 0xff] @ take 504 w,
        [byte_of ((int (length w) - 504) AND 0xff), byte_of (drop_bit 8 (int (length w) - 504) AND 0xff)] @ drop 504 w],
       rdlens := rdlens d @ [5, 5], inbox := rest\<rparr>)"
  using assms
  apply (simp add: spi_eval)
  apply (subst spi_loop.simps)
  apply (simp add: spi_eval)
  apply (subst spi_loop.simps)
  apply (simp add: spi_eval)
  apply (subst spi_loop.simps)
  apply (simp add: spi_eval)
  apply auto
  done

text \<open>
  Claim C5, corrected.  On a device that accepts the writes, a write buffer of 1 to 504
  bytes goes out as one packet: the two length bytes, the operation header \<open>0xC4\<close> with the
  operation length, and all of \<open>w\<close>.  A buffer of 505 to 1010 bytes (509 and 510 among
  them) goes out as two packets of one operation, the first with the operation header and
  504 data bytes, the second with the rest, and each is acknowledged by one read of 5
  bytes.
\<close>

theorem SPI_packet_boundary:
  assumes "wfail d = []"
  shows "(0 < length w \<and> length w \<le> 504 \<longrightarrow>
            map_option (outbox \<circ> snd) (SPI w [] d) = Some (outbox d @
              [[byte_of ((3 + int (length w)) AND 0xff), byte_of (drop_bit 8 (3 + int (length w)) AND 0xff),
                0xC4, byte_of (int (length w)) AND 0xff, byte_of (drop_bit 8 (int (length w))) AND 0xff] @ w]))
       \<and> (504 < length w \<and> length w \<le> 1010 \<and> inbox d = Some spi_ack # Some spi_ack # rest \<longrightarrow>
            SPI w [] d = Some (None, d\<lparr>outbox := outbox d @
              [[0xFB, 0x01, 0xC4, byte_of (int (length w)) AND 0xff,
                byte_of (drop_bit 8 (int (length w))) AND 0xff] @ take 504 w,
               [byte_of ((int (length w) - 504) AND 0xff),
                byte_of (drop_bit 8 (int (length w) - 504) AND 0xff)] @ drop 504 w],
              rdlens := rdlens d @ [5, 5], inbox := rest\<rparr>))"
  using assms spi_one_packet [of w d] spi_two_packets [of w d rest] by blast

text \<open>510 bytes make two packets; 504 bytes make one.\<close>

theorem SPI_packet_boundary_witness:
  "wfail (scripted [spi_ack, spi_ack]) = []
   \<and> SPI (replicate 510 0x5A) [] (scripted [spi_ack, spi_ack])
       = Some (None, \<lparr>outbox = [[0xFB, 0x01, 0xC4, 0xFE, 0x01] @ replicate 504 0x5A,
                                 [0x06, 0x00] @ replicate 6 0x5A],
                      rdlens = [5, 5], inbox = [], wfail = []\<rparr>)
   \<and> map_option (outbox \<circ> snd) (SPI (replicate 504 0x5A) [] (scripted []))
       = Some [[0xFB, 0x01, 0xC4, 0xF8, 0x01] @ replicate 504 0x5A]"
  using SPI_packet_boundary [of "scripted [spi_ack, spi_ack]" "replicate 510 0x5A" "[]"]
    SPI_packet_boundary [of "scripted []" "replicate 504 0x5A"]
  by (simp add: scripted_def)

text \<open>
  Claim C5 as stated fails: a write buffer of 509 bytes goes out as two packets, the frame
  buffer being full at 509 bytes with the two length bytes and the operation header in it.
\<close>

theorem SPI_509_two_packets:
  "SPI (replicate 509 0x5A) [] (scripted [spi_ack, spi_ack])
   = Some (None, \<lparr>outbox = [[0xFB, 0x01, 0xC4, 0xFD, 0x01] @ replicate 504 0x5A,
                             [0x05, 0x00] @ replicate 5 0x5A],
                  rdlens = [5, 5], inbox = [], wfail = []\<rparr>)"
  using spi_two_packets [of "replicate 509 0x5A" "scripted [spi_ack, spi_ack]" "[]"]
  by (simp add: scripted_def)

text \<open>
  Claim C2 against the code.  A write buffer of 504 bytes fills the first packet exactly:
  the packet is written in the loop, the last \<open>write(true)\<close> finds only the two length
  bytes in the buffer and returns at once, and the acknowledgement the device holds ready
  is never read.
\<close>

theorem SPI_504_no_ack_read:
  "SPI (replicate 504 0x5A) [] (scripted [spi_ack])
   = Some (None, \<lparr>outbox = [[0xFB, 0x01, 0xC4, 0xF8, 0x01] @ replicate 504 0x5A], rdlens = [],
                  inbox = [Some spi_ack], wfail = []\<rparr>)"
  using spi_504_exact [of "replicate 504 0x5A" "scripted [spi_ack]"]
  by (simp add: scripted_def)

section \<open>I2C: what a flush reads back\<close>

lemma i2c_confirm_writes_facts:
  "i2c_confirm_writes buf tw pos = (e, tw', pos') \<Longrightarrow> 0 \<le> tw \<Longrightarrow>
     (e = None \<longrightarrow> tw' = 0 \<and> pos' = pos + tw \<and> (\<forall>i < nat tw. buf ! (nat pos + i) \<noteq> 0))
     \<and> (e \<noteq> None \<longrightarrow> e = Some Panic \<or>
           (e = Some ErrI2CWrite \<and> 0 \<le> pos' \<and> pos' < pos + tw \<and> pos \<le> pos' \<and> buf ! nat pos' = 0))"
proof (induction buf tw pos arbitrary: e tw' pos' rule: i2c_confirm_writes.induct)
  case (1 buf tw pos)
  note run = 1(2) [unfolded i2c_confirm_writes.simps [of buf tw pos]]
  show ?case
  proof (cases "0 < tw")
    case False
    with run 1(3) show ?thesis by auto
  next
    case True
    show ?thesis
    proof (cases "pos < 0 \<or> int (length buf) \<le> pos")
      case True
      with run \<open>0 < tw\<close> show ?thesis by auto
    next
      case inr: False
      show ?thesis
      proof (cases "buf ! nat pos = 0")
        case True
        with run \<open>0 < tw\<close> inr show ?thesis by auto
      next
        case False
        have eq: "i2c_confirm_writes buf (tw - 1) (pos + 1) = (e, tw', pos')"
          using run \<open>0 < tw\<close> inr False by simp
        have ih: "(e = None \<longrightarrow> tw' = 0 \<and> pos' = pos + 1 + (tw - 1) \<and> (\<forall>i < nat (tw - 1). buf ! (nat (pos + 1) + i) \<noteq> 0))
     \<and> (e \<noteq> None \<longrightarrow> e = Some Panic \<or>
           (e = Some ErrI2CWrite \<and> 0 \<le> pos' \<and> pos' < pos + 1 + (tw - 1) \<and> pos + 1 \<le> pos' \<and> buf ! nat pos' = 0))"
          by (rule 1(1) [OF \<open>0 < tw\<close> inr False eq]) (use \<open>0 < tw\<close> in simp)
        have all: "(\<forall>i < nat (tw - 1). buf ! (nat (pos + 1) + i) \<noteq> 0) \<Longrightarrow> (\<forall>i < nat tw. buf ! (nat pos + i) \<noteq> 0)"
        proof (intro allI impI)
          fix i assume a: "\<forall>i < nat (tw - 1). buf ! (nat (pos + 1) + i) \<noteq> 0" and i: "i < nat tw"
          show "buf ! (nat pos + i) \<noteq> 0"
          proof (cases i)
            case 0
            then show ?thesis using False by simp
          next
            case (Suc j)
            then have "j < nat (tw - 1)" using i by simp
            then have "buf ! (nat (pos + 1) + j) \<noteq> 0" using a by blast
            moreover have "nat (pos + 1) + j = nat pos + i" using inr Suc by (simp add: nat_add_distrib)
            ultimately show ?thesis by simp
          qed
        qed
        show ?thesis using ih all by auto
      qed
    qed
  qed
qed

lemma i2c_copy_facts:
  "i2c_copy pos s = (e, s') \<Longrightarrow>
     i2c_p s' = i2c_p s \<and> toWrite s' = toWrite s \<and> hasRead s' = hasRead s \<and> i2c_dev s' = i2c_dev s
     \<and> (e = None \<longrightarrow> toRead s' = 0 \<and> rpos s' = rpos s + toRead s \<and> length (i2c_r s') = length (i2c_r s))
     \<and> (e \<noteq> None \<longrightarrow> e = Some Panic \<and> s' = s)"
  by (auto simp: i2c_copy_def Let_def length_copy_bytes split: if_splits)

lemma i2c_confirm_reads_facts:
  "i2c_confirm_reads pos s = (e, s') \<Longrightarrow>
     i2c_p s' = i2c_p s \<and> toWrite s' = toWrite s \<and> i2c_dev s' = i2c_dev s
     \<and> (e = None \<longrightarrow> (if 0 < toRead s
                        then toRead s' = 0 \<and> \<not> hasRead s' \<and> rpos s' = rpos s + toRead s
                             \<and> length (i2c_r s') = length (i2c_r s)
                        else s' = s))
     \<and> (e \<noteq> None \<longrightarrow> i2c_r s' = i2c_r s \<and>
          (e = Some Panic \<or> (e = Some ErrI2CRead \<and> hasRead s \<and> 0 < toRead s \<and> 0 \<le> pos
                               \<and> fst (i2c_p s) ! nat pos \<noteq> 0x01)))"
proof (cases "0 < toRead s")
  case False
  then show "i2c_confirm_reads pos s = (e, s') \<Longrightarrow> ?thesis"
    by (auto simp: i2c_confirm_reads_def)
next
  case True
  assume run: "i2c_confirm_reads pos s = (e, s')"
  show ?thesis
  proof (cases "hasRead s")
    case False
    then have "i2c_copy pos s = (e, s')" using run True by (simp add: i2c_confirm_reads_def)
    from i2c_copy_facts [OF this] show ?thesis using True False by auto
  next
    case hr: True
    let ?s1 = "s\<lparr>hasRead := False\<rparr>"
    show ?thesis
    proof (cases "pos < 0 \<or> int (length (fst (i2c_p s))) \<le> pos")
      case True
      then show ?thesis using run \<open>0 < toRead s\<close> hr by (auto simp: i2c_confirm_reads_def Let_def)
    next
      case inr: False
      show ?thesis
      proof (cases "fst (i2c_p s) ! nat pos \<noteq> 0x01")
        case True
        then show ?thesis using run \<open>0 < toRead s\<close> hr inr by (auto simp: i2c_confirm_reads_def Let_def)
      next
        case False
        then have "i2c_copy (pos + 1) ?s1 = (e, s')"
          using run \<open>0 < toRead s\<close> hr inr by (auto simp: i2c_confirm_reads_def Let_def)
        from i2c_copy_facts [OF this] show ?thesis using \<open>0 < toRead s\<close> hr by auto
      qed
    qed
  qed
qed

lemma i2c_confirm_facts:
  assumes run: "i2c_confirm s = (e, s')"
  shows "outbox (i2c_dev s') = outbox (i2c_dev s)
       \<and> (e \<noteq> None \<longrightarrow> i2c_r s' = i2c_r s)
       \<and> (e = None \<longrightarrow> 0 \<le> toWrite s \<longrightarrow>
           rdlens (i2c_dev s') = rdlens (i2c_dev s) @ [nat (i2c_rlen s)] \<and> toWrite s' = 0
           \<and> sl_cap (i2c_p s') = sl_cap (i2c_p s)
           \<and> (if 0 < toRead s
               then toRead s' = 0 \<and> \<not> hasRead s' \<and> rpos s' = rpos s + toRead s
                    \<and> length (i2c_r s') = length (i2c_r s)
               else toRead s' = toRead s \<and> hasRead s' = hasRead s \<and> i2c_r s' = i2c_r s
                    \<and> rpos s' = rpos s))"
proof (cases "sl_upto (i2c_p s) (i2c_rlen s)")
  case None
  then have "e = Some Panic" "s' = s" using run by (auto simp: i2c_confirm_def)
  then show ?thesis by simp
next
  case (Some p2)
  obtain rerr buf d2 where dr: "dev_read (i2c_dev s) (fst p2) = (rerr, buf, d2)"
    by (cases "dev_read (i2c_dev s) (fst p2)")
  let ?s2 = "s\<lparr>i2c_p := (buf, snd p2), i2c_dev := d2\<rparr>"
  have ob: "outbox d2 = outbox (i2c_dev s)" and lb: "length buf = length (fst p2)"
    using dr dev_read_ok [of "i2c_dev s" "fst p2" buf d2] dev_read_err [of "i2c_dev s" "fst p2" _ buf d2]
    by (cases rerr; auto)+
  have cap2: "sl_cap (buf, snd p2) = sl_cap (i2c_p s)"
    using sl_upto_cap [OF Some] lb by (simp add: sl_cap_def)
  have l2: "length (fst p2) = nat (i2c_rlen s)" using sl_upto_len [OF Some] by simp
  show ?thesis
  proof (cases rerr)
    case (Some x)
    then have "e = rerr" "s' = ?s2" using run \<open>sl_upto (i2c_p s) (i2c_rlen s) = Some p2\<close> dr
      by (auto simp: i2c_confirm_def Let_def)
    then show ?thesis using Some ob by simp
  next
    case None
    have rd: "rdlens d2 = rdlens (i2c_dev s) @ [nat (i2c_rlen s)]"
      using dr None dev_read_ok [of "i2c_dev s" "fst p2" buf d2] l2 by simp
    obtain cerr tw pos where cw: "i2c_confirm_writes buf (toWrite s) 2 = (cerr, tw, pos)"
      by (cases "i2c_confirm_writes buf (toWrite s) 2")
    let ?s3 = "s\<lparr>i2c_p := (buf, snd p2), i2c_dev := d2, toWrite := tw\<rparr>"
    show ?thesis
    proof (cases cerr)
      case (Some x)
      then have "e = cerr" "s' = ?s3"
        using run \<open>sl_upto (i2c_p s) (i2c_rlen s) = Some p2\<close> dr None cw
        by (auto simp: i2c_confirm_def Let_def)
      then show ?thesis using Some ob by simp
    next
      case cn: None
      have cr: "i2c_confirm_reads pos ?s3 = (e, s')"
        using run \<open>sl_upto (i2c_p s) (i2c_rlen s) = Some p2\<close> dr None cw cn
        by (auto simp: i2c_confirm_def Let_def)
      note f = i2c_confirm_reads_facts [OF cr]
      have tw0: "0 \<le> toWrite s \<Longrightarrow> tw = 0"
        using i2c_confirm_writes_facts [OF cw] cn by simp
      show ?thesis using f ob rd cap2 tw0 by (auto split: if_splits)
    qed
  qed
qed

lemma i2c_close_facts:
  assumes c: "i2c_close p = Some p1" and len: "sl_len p \<le> 65536"
  shows "length_prefixed (fst p1) \<and> sl_len p1 = sl_len p + 1
     \<and> (sl_len p < int (sl_cap p) \<longrightarrow> sl_cap p1 = sl_cap p)"
proof -
  let ?xs = "fst p @ [0]"
  have l2: "2 \<le> length ?xs" and p1: "p1 = (set_header ?xs (int (length ?xs) - 2), drop 1 (snd p))"
    using c by (cases "fst p"; auto simp: i2c_close_def Let_def sl_len_def sl_append_def split: if_splits)+
  have "length ?xs < 65538" using len by (simp add: sl_len_def)
  from set_header_prefixed [OF l2 this] have "length_prefixed (fst p1)" by (simp add: p1)
  moreover have "sl_len p1 = sl_len p + 1" by (simp add: p1 sl_len_def)
  moreover have "sl_len p < int (sl_cap p) \<longrightarrow> sl_cap p1 = sl_cap p"
    by (auto simp: p1 sl_len_def sl_cap_def)
  ultimately show ?thesis by simp
qed

lemma i2c_write_frames:
  assumes run: "i2c_write s = (e, s')" and len: "sl_len (i2c_p s) \<le> 65536"
  shows "frames_ok (i2c_dev s) (i2c_dev s')"
proof (cases "i2c_close (i2c_p s)")
  case None
  then have "s' = s" using run by (simp add: i2c_write_def)
  then show ?thesis by (simp add: frames_ok_refl)
next
  case (Some p1)
  obtain werr d1 where dw: "dev_write (i2c_dev s) (fst p1) = (werr, d1)"
    by (cases "dev_write (i2c_dev s) (fst p1)")
  let ?s1 = "s\<lparr>i2c_p := p1, i2c_dev := d1\<rparr>"
  note cf = i2c_close_facts [OF Some len]
  show ?thesis
  proof (cases werr)
    case (Some x)
    then have "s' = ?s1" using run \<open>i2c_close (i2c_p s) = Some p1\<close> dw
      by (auto simp: i2c_write_def Let_def)
    then show ?thesis using dev_write_err [of "i2c_dev s" "fst p1" x d1] dw Some
      by (simp add: frames_ok_same)
  next
    case None
    have fr1: "frames_ok (i2c_dev s) d1"
      using dev_write_ok [of "i2c_dev s" "fst p1" d1] dw None cf by (auto intro: frames_ok_one)
    obtain err s2 where c: "(if 0 < toWrite ?s1 + toRead ?s1 then i2c_confirm ?s1 else (None, ?s1)) = (err, s2)"
      by (cases "if 0 < toWrite ?s1 + toRead ?s1 then i2c_confirm ?s1 else (None, ?s1)")
    have ob2: "outbox (i2c_dev s2) = outbox d1"
      using c i2c_confirm_facts [of ?s1 err s2] by (auto split: if_splits)
    have "outbox (i2c_dev s') = outbox (i2c_dev s2)"
      using run \<open>i2c_close (i2c_p s) = Some p1\<close> dw None c
      by (auto simp: i2c_write_def Let_def split: if_splits option.splits)
    then show ?thesis using fr1 ob2 by (auto simp: frames_ok_iff)
  qed
qed

text \<open>What a successful flush leaves, from a good state.\<close>

lemma i2c_write_ok:
  assumes run: "i2c_write s = (None, s')" and good: "i2c_good s"
  shows "sl_len (i2c_p s') = 0 \<and> sl_cap (i2c_p s') = 512 \<and> toWrite s' = 0 \<and> toRead s' = 0
       \<and> length (i2c_r s') = length (i2c_r s)
       \<and> rdlens (i2c_dev s') = rdlens (i2c_dev s)
            @ (if 0 < toWrite s + toRead s then [nat (i2c_rlen s)] else [])
       \<and> rpos s' = rpos s + toRead s
       \<and> settled s s'
       \<and> (toRead s = 0 \<longrightarrow> i2c_r s' = i2c_r s \<and> hasRead s' = hasRead s)"
proof -
  have g: "0 \<le> toWrite s" "0 \<le> toRead s" "hasRead s \<and> 0 < toWrite s \<longrightarrow> 0 < toRead s"
    "sl_cap (i2c_p s) = 512" "sl_len (i2c_p s) \<le> 509"
    using good by (auto simp: i2c_good_def)
  obtain p1 where cl: "i2c_close (i2c_p s) = Some p1"
    using run by (cases "i2c_close (i2c_p s)") (auto simp: i2c_write_def)
  have cf: "sl_cap p1 = 512" using i2c_close_facts [OF cl] g by simp
  obtain werr d1 where dw: "dev_write (i2c_dev s) (fst p1) = (werr, d1)"
    by (cases "dev_write (i2c_dev s) (fst p1)")
  let ?s1 = "s\<lparr>i2c_p := p1, i2c_dev := d1\<rparr>"
  have wn: "werr = None" using run cl dw by (auto simp: i2c_write_def Let_def split: if_splits)
  have rd1: "rdlens d1 = rdlens (i2c_dev s)"
    using dev_write_ok [of "i2c_dev s" "fst p1" d1] dw wn by simp
  obtain err s2 where c: "(if 0 < toWrite s + toRead s then i2c_confirm ?s1 else (None, ?s1)) = (err, s2)"
    by (cases "if 0 < toWrite s + toRead s then i2c_confirm ?s1 else (None, ?s1)")
  have res: "err = None \<and> (\<exists>pe. sl_upto (i2c_p s2) 0 = Some pe \<and> s' = s2\<lparr>i2c_p := pe\<rparr>)"
    using run cl dw wn c by (auto simp: i2c_write_def Let_def split: if_splits option.splits)
  then obtain pe where pe: "sl_upto (i2c_p s2) 0 = Some pe" "s' = s2\<lparr>i2c_p := pe\<rparr>" by blast
  show ?thesis
  proof (cases "0 < toWrite s + toRead s")
    case False
    then have "s2 = ?s1" using c by simp
    moreover have "toWrite s = 0" "toRead s = 0" using False g by auto
    ultimately show ?thesis
      using pe sl_upto_cap [OF pe(1)] cf rd1 False by (auto simp: same_counts_def settled_def)
  next
    case True
    then have ic: "i2c_confirm ?s1 = (None, s2)" using c res by simp
    have rl: "i2c_rlen ?s1 = i2c_rlen s" by (simp add: i2c_rlen_def)
    have f: "rdlens (i2c_dev s2) = rdlens (i2c_dev s) @ [nat (i2c_rlen s)]" "toWrite s2 = 0"
      "sl_cap (i2c_p s2) = 512"
      "if 0 < toRead s then toRead s2 = 0 \<and> \<not> hasRead s2 \<and> rpos s2 = rpos s + toRead s
                    \<and> length (i2c_r s2) = length (i2c_r s)
       else toRead s2 = toRead s \<and> hasRead s2 = hasRead s \<and> i2c_r s2 = i2c_r s \<and> rpos s2 = rpos s"
      using i2c_confirm_facts [OF ic] g rd1 cf rl by auto
    have nh: "\<not> hasRead s2" using f(4) g True by (auto split: if_splits)
    have tr: "toRead s2 = 0" using f(4) g by (auto split: if_splits)
    have rp: "rpos s2 = rpos s + toRead s" "length (i2c_r s2) = length (i2c_r s)"
      using f(4) g by (auto split: if_splits)
    have "consumed (i2c_dev s2) = consumed (i2c_dev s) + (int (nat (i2c_rlen s)) - 2)"
      by (simp add: consumed_def f(1))
    moreover have "int (nat (i2c_rlen s)) - 2 = pending s"
      using g True by (simp add: i2c_rlen_def pending_def Let_def)
    ultimately have cons: "consumed (i2c_dev s2) = consumed (i2c_dev s) + pending s" by simp
    have keep: "toRead s = 0 \<longrightarrow> i2c_r s2 = i2c_r s \<and> hasRead s2 = hasRead s"
      using f(4) by (auto split: if_splits)
    show ?thesis
      using pe sl_upto_cap [OF pe(1)] f(1,2,3) nh tr rp cons True keep
      by (auto simp: cleared_def settled_def)
  qed
qed

lemma settled_refl: "settled s s"
  by (simp add: settled_def same_counts_def)

lemma settled_trans: "settled s s1 \<Longrightarrow> settled s1 s2 \<Longrightarrow> settled s s2"
  by (auto simp: settled_def same_counts_def cleared_def pending_def consumed_def)

lemma settled_pending:
  "settled s s' \<Longrightarrow> consumed (i2c_dev s') + pending s' = consumed (i2c_dev s) + pending s"
  by (auto simp: settled_def same_counts_def cleared_def pending_def consumed_def)




lemma i2c_confirm_err:
  assumes run: "i2c_confirm s = (Some e, s')" and tw: "0 \<le> toWrite s"
  shows "(e = ErrI2CWrite \<longrightarrow> 0 < toWrite s) \<and> (e = ErrI2CRead \<longrightarrow> hasRead s)"
proof (cases "sl_upto (i2c_p s) (i2c_rlen s)")
  case None
  then show ?thesis using run by (auto simp: i2c_confirm_def)
next
  case (Some p2)
  obtain rerr buf d2 where dr: "dev_read (i2c_dev s) (fst p2) = (rerr, buf, d2)"
    by (cases "dev_read (i2c_dev s) (fst p2)")
  show ?thesis
  proof (cases rerr)
    case (Some x)
    then have "e = ErrTransport" using run \<open>sl_upto (i2c_p s) (i2c_rlen s) = Some p2\<close> dr
      by (auto simp: i2c_confirm_def Let_def dev_read_def split: list.splits option.splits)
    then show ?thesis by simp
  next
    case None
    obtain cerr tw' pos where cw: "i2c_confirm_writes buf (toWrite s) 2 = (cerr, tw', pos)"
      by (cases "i2c_confirm_writes buf (toWrite s) 2")
    note f = i2c_confirm_writes_facts [OF cw tw]
    let ?s3 = "s\<lparr>i2c_p := (buf, snd p2), i2c_dev := d2, toWrite := tw'\<rparr>"
    have unf: "(Some e, s') = (if cerr \<noteq> None then (cerr, ?s3) else i2c_confirm_reads pos ?s3)"
      using run \<open>sl_upto (i2c_p s) (i2c_rlen s) = Some p2\<close> dr None cw by (simp add: i2c_confirm_def Let_def)
    show ?thesis
    proof (cases cerr)
      case (Some x)
      then show ?thesis using unf f by auto
    next
      case cn: None
      then have "i2c_confirm_reads pos ?s3 = (Some e, s')" using unf by simp
      from i2c_confirm_reads_facts [OF this] show ?thesis by auto
    qed
  qed
qed

lemma i2c_write_err:
  assumes run: "i2c_write s = (Some e, s')" and tw: "0 \<le> toWrite s"
  shows "i2c_r s' = i2c_r s \<and> (e = ErrI2CWrite \<longrightarrow> 0 < toWrite s) \<and> (e = ErrI2CRead \<longrightarrow> hasRead s)"
proof (cases "i2c_close (i2c_p s)")
  case None
  then show ?thesis using run by (auto simp: i2c_write_def)
next
  case (Some p1)
  obtain werr d1 where dw: "dev_write (i2c_dev s) (fst p1) = (werr, d1)"
    by (cases "dev_write (i2c_dev s) (fst p1)")
  let ?s1 = "s\<lparr>i2c_p := p1, i2c_dev := d1\<rparr>"
  show ?thesis
  proof (cases werr)
    case (Some x)
    then have "s' = ?s1" "e = ErrTransport" using run \<open>i2c_close (i2c_p s) = Some p1\<close> dw
      by (auto simp: i2c_write_def Let_def dev_write_def split: list.splits if_splits)
    then show ?thesis by simp
  next
    case None
    show ?thesis
    proof (cases "0 < toWrite s + toRead s")
      case False
      then show ?thesis
        using run \<open>i2c_close (i2c_p s) = Some p1\<close> dw None
        by (auto simp: i2c_write_def Let_def split: option.splits)
    next
      case True
      obtain err s2 where ic: "i2c_confirm ?s1 = (err, s2)" by (cases "i2c_confirm ?s1")
      have res: "(Some e, s') = (if err \<noteq> None then (err, s2)
           else (case sl_upto (i2c_p s2) 0 of None \<Rightarrow> (Some Panic, s2) | Some pe \<Rightarrow> (None, s2\<lparr>i2c_p := pe\<rparr>)))"
        using run \<open>i2c_close (i2c_p s) = Some p1\<close> dw None True ic
        by (auto simp: i2c_write_def Let_def)
      show ?thesis
      proof (cases err)
        case (Some x)
        then have "i2c_confirm ?s1 = (Some e, s')" using res ic by simp
        from i2c_confirm_err [OF this] i2c_confirm_facts [OF this] tw show ?thesis by simp
      next
        case en: None
        then obtain pe where "sl_upto (i2c_p s2) 0 = None" "e = Panic" "s' = s2"
          using res by (auto split: option.splits)
        then show ?thesis using sl_upto_Some [of 0 "i2c_p s2"] by simp
      qed
    qed
  qed
qed

lemma pack_frames:
  assumes run: "pack elems s = (e, s')" and len: "sl_len (i2c_p s) \<le> 65536"
  shows "frames_ok (i2c_dev s) (i2c_dev s')"
proof (cases "sl_len (i2c_p s) + int (length elems) \<ge> maxPacketLen - 2")
  case False
  then have "i2c_dev s' = i2c_dev s" using run by (auto simp: pack_def Let_def)
  then show ?thesis by (simp add: frames_ok_refl)
next
  case True
  obtain err s1 where w: "i2c_write s = (err, s1)" by (cases "i2c_write s")
  have "i2c_dev s' = i2c_dev s1" using run True w by (auto simp: pack_def Let_def split: if_splits)
  then show ?thesis using i2c_write_frames [OF w len] by simp
qed

lemma pack_err:
  assumes run: "pack elems s = (Some e, s')" and tw: "0 \<le> toWrite s"
  shows "i2c_r s' = i2c_r s \<and> (e = ErrI2CWrite \<longrightarrow> 0 < toWrite s) \<and> (e = ErrI2CRead \<longrightarrow> hasRead s)"
proof -
  have "i2c_write s = (Some e, s')"
    using run by (auto simp: pack_def Let_def split: if_splits prod.splits)
  from i2c_write_err [OF this tw] show ?thesis .
qed

lemma pack_ok:
  assumes run: "pack elems s = (None, s')" and good: "i2c_good s" and el: "length elems \<le> 506"
  shows "sl_cap (i2c_p s') = 512 \<and> sl_len (i2c_p s') \<le> 509
       \<and> toWrite s' + int (length elems) < sl_len (i2c_p s')
       \<and> 0 \<le> toWrite s' \<and> 0 \<le> toRead s'
       \<and> (hasRead s' \<and> 0 < toWrite s' \<longrightarrow> 0 < toRead s')
       \<and> length (i2c_r s') = length (i2c_r s)
       \<and> settled s s'
       \<and> (toRead s = 0 \<longrightarrow> i2c_r s' = i2c_r s \<and> hasRead s' = hasRead s)"
proof -
  have g: "0 \<le> toWrite s" "0 \<le> toRead s" "hasRead s \<and> 0 < toWrite s \<longrightarrow> 0 < toRead s"
    "sl_cap (i2c_p s) = 512" "sl_len (i2c_p s) \<le> 509" "toWrite s < sl_len (i2c_p s) \<or> toWrite s = 0"
    using good by (auto simp: i2c_good_def)
  obtain err s1 where f: "(if sl_len (i2c_p s) + int (length elems) \<ge> maxPacketLen - 2
                       then i2c_write s else (None, s)) = (err, s1)"
    by (cases "if sl_len (i2c_p s) + int (length elems) \<ge> maxPacketLen - 2 then i2c_write s else (None, s)")
  have en: "err = None" using run f by (auto simp: pack_def Let_def split: if_splits)
  let ?s2 = "if sl_len (i2c_p s1) = 0
             then s1\<lparr>i2c_p := sl_append (sl_append (i2c_p s1) [0x00, 0x00]) [CmdI2CStream]\<rparr> else s1"
  have s': "s' = ?s2\<lparr>i2c_p := sl_append (i2c_p ?s2) elems\<rparr>"
    using run f en by (auto simp: pack_def Let_def)
  have s1: "sl_cap (i2c_p s1) = 512 \<and> settled s s1 \<and> length (i2c_r s1) = length (i2c_r s)
          \<and> (toRead s = 0 \<longrightarrow> i2c_r s1 = i2c_r s \<and> hasRead s1 = hasRead s)
          \<and> 0 \<le> toWrite s1 \<and> 0 \<le> toRead s1 \<and> (hasRead s1 \<and> 0 < toWrite s1 \<longrightarrow> 0 < toRead s1)
          \<and> ((sl_len (i2c_p s1) = 0 \<and> toWrite s1 = 0)
              \<or> (0 < sl_len (i2c_p s1) \<and> sl_len (i2c_p s1) + int (length elems) < 510
                  \<and> toWrite s1 < sl_len (i2c_p s1)))"
  proof (cases "sl_len (i2c_p s) + int (length elems) \<ge> maxPacketLen - 2")
    case True
    then have "i2c_write s = (None, s1)" using f en by simp
    from i2c_write_ok [OF this good] show ?thesis by simp
  next
    case False
    then have "s1 = s" using f by simp
    moreover have "0 \<le> sl_len (i2c_p s)" by (simp add: sl_len_def)
    ultimately show ?thesis using g False by (auto simp: settled_refl maxPacketLen_def)
  qed
  show ?thesis
    using s1 el unfolding s'
    by (auto simp: sl_len_def sl_cap_def sl_append_def settled_def same_counts_def cleared_def)
qed

lemma i2c_flush_frames:
  assumes run: "i2c_flush dd s = (e, s')" and good: "i2c_good s" and el: "length dd \<le> 506"
  shows "frames_ok (i2c_dev s) (i2c_dev s')"
proof -
  have len: "sl_len (i2c_p s) \<le> 65536" using good by (simp add: i2c_good_def)
  obtain err s1 where p: "pack dd s = (err, s1)" by (cases "pack dd s")
  note f1 = pack_frames [OF p len]
  show ?thesis
  proof (cases err)
    case (Some x)
    then have "s' = s1" using run p by (simp add: i2c_flush_def)
    then show ?thesis using f1 by simp
  next
    case None
    then have w: "i2c_write s1 = (e, s')" using run p by (simp add: i2c_flush_def)
    have "sl_len (i2c_p s1) \<le> 65536" using pack_ok [OF p [unfolded None] good el] by simp
    from i2c_write_frames [OF w this] f1 show ?thesis by (rule frames_ok_trans [rotated])
  qed
qed

lemma i2c_flush_ok:
  assumes run: "i2c_flush dd s = (None, s')" and good: "i2c_good s" and el: "length dd \<le> 506"
  shows "sl_len (i2c_p s') = 0 \<and> sl_cap (i2c_p s') = 512 \<and> toWrite s' = 0 \<and> toRead s' = 0
       \<and> length (i2c_r s') = length (i2c_r s) \<and> settled s s'
       \<and> (hasRead s' \<longrightarrow> hasRead s \<and> toRead s = 0)
       \<and> (toRead s = 0 \<longrightarrow> i2c_r s' = i2c_r s \<and> hasRead s' = hasRead s)"
proof -
  obtain err s1 where p: "pack dd s = (err, s1)" by (cases "pack dd s")
  have en: "err = None" and w: "i2c_write s1 = (None, s')"
    using run p by (auto simp: i2c_flush_def split: if_splits)
  note po = pack_ok [OF p [unfolded en] good el]
  have g1: "i2c_good s1" using po by (auto simp: i2c_good_def)
  note wo = i2c_write_ok [OF w g1]
  have "settled s s'" using po wo by (auto intro: settled_trans)
  moreover have "hasRead s' \<longrightarrow> hasRead s \<and> toRead s = 0"
    using po wo by (auto simp: settled_def same_counts_def cleared_def)
  moreover have "toRead s = 0 \<longrightarrow> i2c_r s' = i2c_r s \<and> hasRead s' = hasRead s"
    using po wo by (auto simp: settled_def same_counts_def cleared_def)
  ultimately show ?thesis using po wo by simp
qed

lemma i2c_flush_err:
  assumes run: "i2c_flush dd s = (Some e, s')" and good: "i2c_good s" and el: "length dd \<le> 506"
  shows "(e = ErrI2CWrite \<or> e = ErrI2CRead) \<longrightarrow> i2c_r s' = i2c_r s \<and> (0 < toWrite s \<or> hasRead s)"
proof -
  have tw: "0 \<le> toWrite s" using good by (simp add: i2c_good_def)
  obtain err s1 where p: "pack dd s = (err, s1)" by (cases "pack dd s")
  show ?thesis
  proof (cases err)
    case (Some x)
    then have "pack dd s = (Some e, s')" using run p by (simp add: i2c_flush_def)
    from pack_err [OF this tw] show ?thesis by auto
  next
    case None
    then have w: "i2c_write s1 = (Some e, s')" using run p by (simp add: i2c_flush_def)
    note po = pack_ok [OF p [unfolded None] good el]
    have "i2c_r s' = i2c_r s1 \<and> (e = ErrI2CWrite \<longrightarrow> 0 < toWrite s1) \<and> (e = ErrI2CRead \<longrightarrow> hasRead s1)"
      using i2c_write_err [OF w] po by simp
    then show ?thesis using po by (auto simp: settled_def same_counts_def cleared_def)
  qed
qed

lemma i2c_wpart_facts:
  assumes run: "i2c_wpart addr w pos dd = Some (pos', d3, dlen)" and dd: "length dd = 1"
    and pos: "0 \<le> pos" "pos < int (length w)"
  shows "pos < pos' \<and> pos' \<le> int (length w) \<and> dlen = pos' - pos + (if pos = 0 then 1 else 0)
       \<and> int (length d3) = 1 + dlen \<and> dlen \<le> 63 \<and> 0 < dlen"
proof -
  let ?dlen0 = "int (length w) - pos"
  let ?dlen1 = "if ?dlen0 > maxLen then maxLen else ?dlen0"
  let ?dlen2 = "if pos = 0 \<and> ?dlen1 = maxLen then ?dlen1 - 1 else ?dlen1"
  let ?d1 = "if pos = 0 then dd @ [ucast (push_bit 1 addr)] else dd"
  let ?d2 = "?d1 @ take (nat ?dlen2) (drop (nat pos) w)"
  have b: "0 < ?dlen2" "?dlen2 \<le> ?dlen0" "?dlen2 \<le> 63" "pos = 0 \<longrightarrow> ?dlen2 \<le> 62"
    using pos by (auto simp: maxLen_def)
  have ne: "?d2 \<noteq> []" using dd by auto
  have res: "pos' = pos + ?dlen2" "d3 = ?d2[0 := CmdI2CWrite OR byte_of dlen]"
    "dlen = int (length ?d2) - 1"
    using run pos b(1) ne unfolding i2c_wpart_def Let_def by (simp_all split: if_splits)
  have lt: "length (take (nat ?dlen2) (drop (nat pos) w)) = nat ?dlen2"
    using b pos by simp
  have l2: "int (length ?d2) = (if pos = 0 then 2 else 1) + ?dlen2"
    using dd b(1) by (simp only: length_append lt) auto
  show ?thesis
    unfolding res(1) using res(2,3) l2 b by (auto simp del: length_append)
qed

lemma i2c_write_loop_facts:
  "i2c_write_loop addr w pos dd s = (e, s') \<Longrightarrow> i2c_good s \<Longrightarrow> \<not> hasRead s \<Longrightarrow> toRead s = 0 \<Longrightarrow>
   length dd = 1 \<Longrightarrow> 0 \<le> pos \<Longrightarrow>
     frames_ok (i2c_dev s) (i2c_dev s') \<and> i2c_r s' = i2c_r s \<and> e \<noteq> Some ErrI2CRead
     \<and> (e = None \<longrightarrow> i2c_good s' \<and> \<not> hasRead s' \<and> toRead s' = 0
          \<and> consumed (i2c_dev s') + toWrite s'
              = consumed (i2c_dev s) + toWrite s
                + (if pos < int (length w) then int (length w) - pos + (if pos = 0 then 1 else 0) else 0))"
proof (induction addr w pos dd s arbitrary: e s' rule: i2c_write_loop.induct)
  case (1 addr w pos dd s)
  note run = 1(2) [unfolded i2c_write_loop.simps [of addr w pos dd s]]
  note good = 1(3) and nh = 1(4) and tr0 = 1(5) and dd = 1(6) and pos = 1(7)
  have len: "sl_len (i2c_p s) \<le> 65536" and tw: "0 \<le> toWrite s"
    using good by (auto simp: i2c_good_def)
  show ?case
  proof (cases "pos < int (length w)")
    case False
    then have "e = None" "s' = s" using run by auto
    then show ?thesis using False good nh tr0 by (simp add: frames_ok_refl)
  next
    case True
    show ?thesis
    proof (cases "i2c_wpart addr w pos dd")
      case None
      then have "e = Some Panic" "s' = s" using run True by auto
      then show ?thesis by (simp add: frames_ok_refl)
    next
      case (Some x)
      obtain pos' d3 dlen where x: "x = (pos', d3, dlen)" by (cases x)
      note wp = Some [unfolded x]
      note wf = i2c_wpart_facts [OF wp dd pos True]
      obtain err s1 where pk: "pack d3 s = (err, s1)" by (cases "pack d3 s")
      note fr1 = pack_frames [OF pk len]
      have el: "length d3 \<le> 506" using wf by auto
      show ?thesis
      proof (cases err)
        case (Some y)
        then have res: "e = Some y" "s' = s1" using run True wp pk by auto
        have "i2c_r s1 = i2c_r s \<and> (y = ErrI2CWrite \<longrightarrow> 0 < toWrite s) \<and> (y = ErrI2CRead \<longrightarrow> hasRead s)"
          using pack_err [OF pk [unfolded Some] tw] .
        then show ?thesis using res fr1 nh by auto
      next
        case None
        let ?s2 = "s1\<lparr>toWrite := toWrite s1 + dlen\<rparr>"
        have eq: "i2c_write_loop addr w pos' (take 1 d3) ?s2 = (e, s')"
          using run True wp pk None by auto
        note po = pack_ok [OF pk [unfolded None] good el]
        have keep: "i2c_r s1 = i2c_r s" "\<not> hasRead s1" using po tr0 nh by auto
        have tr1: "toRead s1 = 0"
          using po tr0 by (auto simp: settled_def same_counts_def cleared_def)
        have c1: "consumed (i2c_dev s1) + toWrite s1 = consumed (i2c_dev s) + toWrite s"
          using settled_pending [of s s1] po keep nh tr0 tr1 by (simp add: pending_def)
        have good2: "i2c_good ?s2"
          using po wf keep by (auto simp: i2c_good_def)
        have ih: "frames_ok (i2c_dev ?s2) (i2c_dev s') \<and> i2c_r s' = i2c_r ?s2 \<and> e \<noteq> Some ErrI2CRead
          \<and> (e = None \<longrightarrow> i2c_good s' \<and> \<not> hasRead s' \<and> toRead s' = 0
          \<and> consumed (i2c_dev s') + toWrite s'
              = consumed (i2c_dev ?s2) + toWrite ?s2
                + (if pos' < int (length w) then int (length w) - pos' + (if pos' = 0 then 1 else 0) else 0))"
        proof (rule 1(1) [OF True wp refl refl pk [symmetric] refl _ eq good2])
          show "\<not> err \<noteq> None" using None by simp
          show "\<not> hasRead ?s2" using keep by simp
          show "toRead ?s2 = 0" using tr1 by simp
          show "length (take 1 d3) = 1" using wf by (cases d3) auto
          show "0 \<le> pos'" using wf pos by simp
        qed
        have fr: "frames_ok (i2c_dev s) (i2c_dev s')"
          using fr1 ih by (auto intro: frames_ok_trans)
        have cnt: "e = None \<Longrightarrow> consumed (i2c_dev s') + toWrite s'
              = consumed (i2c_dev s) + toWrite s + (int (length w) - pos + (if pos = 0 then 1 else 0))"
          using ih c1 wf pos by (auto split: if_splits)
        show ?thesis using fr ih keep cnt True by auto
      qed
    qed
  qed
qed

lemma i2c_write_part_facts:
  assumes run: "i2c_write_part addr w (i2c_init r d) = (e, s')"
  shows "frames_ok d (i2c_dev s') \<and> i2c_r s' = r \<and> e \<noteq> Some ErrI2CRead
     \<and> (e = None \<longrightarrow> i2c_good s' \<and> \<not> hasRead s' \<and> toRead s' = 0
          \<and> consumed (i2c_dev s') + toWrite s'
              = consumed d + (if w = [] then 0 else int (length w) + 1))"
proof -
  let ?s0 = "i2c_init r d"
  have g0: "i2c_good ?s0" "\<not> hasRead ?s0" "toRead ?s0 = 0" "toWrite ?s0 = 0" "i2c_r ?s0 = r" "i2c_dev ?s0 = d"
    by (simp_all add: i2c_init_def i2c_good_def sl_make_def sl_cap_def sl_len_def)
  show ?thesis
  proof (cases "w = []")
    case True
    then have "e = None" "s' = ?s0" using run by (auto simp: i2c_write_part_def)
    then show ?thesis using g0 True by (simp add: frames_ok_refl)
  next
    case False
    obtain err s1 where pk: "pack [CmdI2CStart] ?s0 = (err, s1)" by (cases "pack [CmdI2CStart] ?s0")
    have len: "sl_len (i2c_p ?s0) \<le> 65536" using g0 by (simp add: i2c_good_def)
    note fr1 = pack_frames [OF pk len]
    show ?thesis
    proof (cases err)
      case (Some y)
      then have res: "e = Some y" "s' = s1" using run False pk by (auto simp: i2c_write_part_def)
      have "i2c_r s1 = i2c_r ?s0 \<and> (y = ErrI2CWrite \<longrightarrow> 0 < toWrite ?s0) \<and> (y = ErrI2CRead \<longrightarrow> hasRead ?s0)"
        by (rule pack_err [OF pk [unfolded Some]]) (simp add: g0)
      then show ?thesis using res fr1 g0 by auto
    next
      case None
      have eq: "i2c_write_loop addr w 0 [CmdI2CWrite] s1 = (e, s')"
        using run False pk None by (auto simp: i2c_write_part_def)
      have po: "sl_cap (i2c_p s1) = 512 \<and> sl_len (i2c_p s1) \<le> 509
       \<and> toWrite s1 + int (length [CmdI2CStart]) < sl_len (i2c_p s1)
       \<and> 0 \<le> toWrite s1 \<and> 0 \<le> toRead s1
       \<and> (hasRead s1 \<and> 0 < toWrite s1 \<longrightarrow> 0 < toRead s1)
       \<and> length (i2c_r s1) = length (i2c_r ?s0)
       \<and> settled ?s0 s1
       \<and> (toRead ?s0 = 0 \<longrightarrow> i2c_r s1 = i2c_r ?s0 \<and> hasRead s1 = hasRead ?s0)"
        by (rule pack_ok [OF pk [unfolded None] g0(1)]) simp
      have keep: "i2c_r s1 = r" "\<not> hasRead s1" using po g0 by auto
      have tr1: "toRead s1 = 0" "toWrite s1 = 0"
        using po g0 by (auto simp: settled_def same_counts_def cleared_def)
      have c1: "consumed (i2c_dev s1) = consumed d"
        using settled_pending [of ?s0 s1] po keep g0 tr1 by (simp add: pending_def)
      have good1: "i2c_good s1" using po by (auto simp: i2c_good_def)
      have "frames_ok (i2c_dev s1) (i2c_dev s') \<and> i2c_r s' = i2c_r s1 \<and> e \<noteq> Some ErrI2CRead
     \<and> (e = None \<longrightarrow> i2c_good s' \<and> \<not> hasRead s' \<and> toRead s' = 0
          \<and> consumed (i2c_dev s') + toWrite s'
              = consumed (i2c_dev s1) + toWrite s1
                + (if 0 < int (length w) then int (length w) - 0 + (if (0::int) = 0 then 1 else 0) else 0))"
        by (rule i2c_write_loop_facts [OF eq good1]) (use keep tr1 in auto)
      then show ?thesis using fr1 keep c1 tr1 False g0 by (auto intro: frames_ok_trans)
    qed
  qed
qed

lemma i2c_rdlen_facts:
  assumes "i2c_rinv rlen dd s" "0 < rlen"
  shows "1 \<le> i2c_rdlen rlen s \<and> i2c_rdlen rlen s \<le> rlen \<and> i2c_rdlen rlen s \<le> 63
       \<and> (\<not> i2c_rsend rlen s \<longrightarrow> toWrite s + toRead s + i2c_rdlen rlen s \<le> 509
              \<and> (i2c_rdlen rlen s < rlen \<longrightarrow> i2c_rdlen rlen s = 63))
       \<and> (i2c_rsend rlen s \<longrightarrow> i2c_rdlen rlen s = 510 - toWrite s - toRead s)"
  using assms
  by (auto simp: i2c_rinv_def i2c_rdlen_def i2c_rsend_def Let_def maxLen_def maxPacketLen_def)

lemma i2c_rreq_length: "length (i2c_rreq m dlen dd) \<le> length dd + 1"
  by (simp add: i2c_rreq_def)

lemma i2c_rcount_fields:
  "toWrite (i2c_rcount send dlen s) = toWrite s"
  "toRead (i2c_rcount send dlen s) = toRead s - (if send \<and> hasRead s then 1 else 0) + dlen"
  "hasRead (i2c_rcount send dlen s) = hasRead s"
  "i2c_p (i2c_rcount send dlen s) = i2c_p s"
  "i2c_r (i2c_rcount send dlen s) = i2c_r s"
  "i2c_dev (i2c_rcount send dlen s) = i2c_dev s"
  "rpos (i2c_rcount send dlen s) = rpos s"
  by (simp_all add: i2c_rcount_def Let_def)

lemma i2c_read_loop_facts:
  "i2c_rinv rlen dd s \<Longrightarrow> (i2c_r s = r0 \<or> (toWrite s = 0 \<and> \<not> hasRead s)) \<Longrightarrow>
   \<exists>e dd' s'. i2c_read_loop rlen dd maxRLen s = Some (e, dd', s') \<and> frames_ok (i2c_dev s) (i2c_dev s')
      \<and> ((e = Some ErrI2CWrite \<or> e = Some ErrI2CRead) \<longrightarrow> i2c_r s' = r0)
      \<and> (e = None \<longrightarrow> i2c_rinv 0 dd' s' \<and> (i2c_r s' = r0 \<or> (toWrite s' = 0 \<and> \<not> hasRead s'))
            \<and> consumed (i2c_dev s') + toWrite s' + toRead s'
                = consumed (i2c_dev s) + toWrite s + toRead s + rlen)"
proof (induction "nat rlen" arbitrary: rlen dd maxRLen s rule: less_induct)
  case less
  note inv = less.prems(1) and q = less.prems(2)
  show ?case
  proof (cases "0 < rlen")
    case False
    then have r0: "rlen = 0" using inv by (simp add: i2c_rinv_def)
    have "i2c_read_loop rlen dd maxRLen s = Some (None, dd, s)"
      using False by (subst i2c_read_loop.simps) simp
    then show ?thesis using inv q r0 by (simp add: frames_ok_refl)
  next
    case True
    let ?send = "i2c_rsend rlen s"
    let ?dlen = "i2c_rdlen rlen s"
    let ?d1 = "i2c_rreq maxRLen ?dlen dd"
    let ?m = "if maxRLen = 64 then 63 else maxRLen"
    let ?s2 = "i2c_rcount ?send ?dlen s"
    note dl = i2c_rdlen_facts [OF inv True]
    note rc = i2c_rcount_fields [of ?send ?dlen s]
    have g: "0 \<le> toWrite s" "0 \<le> toRead s" "sl_cap (i2c_p s) = 512" "sl_len (i2c_p s) \<le> 509"
      "toWrite s < sl_len (i2c_p s) \<or> toWrite s = 0" "toWrite s + toRead s \<le> 509"
      "hasRead s \<longrightarrow> 1 \<le> toRead s + rlen" "63 * int (length dd) \<le> toRead s + 252"
      "63 * int (length dd) + 63 \<le> toRead s + 252"
      using inv True by (auto simp: i2c_rinv_def)
    have ld1: "int (length ?d1) \<le> int (length dd) + 1" using i2c_rreq_length [of maxRLen ?dlen dd] by simp
    have less': "nat (rlen - ?dlen) < nat rlen" using dl True by auto
    show ?thesis
    proof (cases ?send)
      case False
      have eq: "i2c_read_loop rlen dd maxRLen s = i2c_read_loop (rlen - ?dlen) ?d1 ?m ?s2"
        using True False by (subst i2c_read_loop.simps) (simp add: Let_def)
      have inv2: "i2c_rinv (rlen - ?dlen) ?d1 ?s2"
        unfolding i2c_rinv_def rc using g dl False ld1 by auto
      have q2: "i2c_r ?s2 = r0 \<or> (toWrite ?s2 = 0 \<and> \<not> hasRead ?s2)" using q by (simp add: rc)
      from less.hyps [OF less' inv2 q2, of ?m] obtain e dd' s' where
        ih: "i2c_read_loop (rlen - ?dlen) ?d1 ?m ?s2 = Some (e, dd', s')"
          "frames_ok (i2c_dev ?s2) (i2c_dev s')"
          "(e = Some ErrI2CWrite \<or> e = Some ErrI2CRead) \<longrightarrow> i2c_r s' = r0"
          "e = None \<longrightarrow> i2c_rinv 0 dd' s' \<and> (i2c_r s' = r0 \<or> (toWrite s' = 0 \<and> \<not> hasRead s'))
            \<and> consumed (i2c_dev s') + toWrite s' + toRead s'
                = consumed (i2c_dev ?s2) + toWrite ?s2 + toRead ?s2 + (rlen - ?dlen)"
        by blast
      show ?thesis
        using eq ih False by (simp add: i2c_rcount_fields)
    next
      case send: True
      have good2: "i2c_good ?s2"
        unfolding i2c_good_def rc using g dl send by auto
      have el: "length ?d1 \<le> 506" using ld1 g by linarith
      obtain e1 s3 where fl: "i2c_flush ?d1 ?s2 = (e1, s3)" by (cases "i2c_flush ?d1 ?s2")
      have fr3: "frames_ok (i2c_dev s) (i2c_dev s3)"
        using i2c_flush_frames [OF fl good2 el] by (simp add: rc)
      show ?thesis
      proof (cases e1)
        case (Some x)
        have eq: "i2c_read_loop rlen dd maxRLen s = Some (e1, ?d1, s3)"
          using \<open>0 < rlen\<close> send fl Some by (subst i2c_read_loop.simps) (simp add: Let_def)
        have "(x = ErrI2CWrite \<or> x = ErrI2CRead) \<longrightarrow> i2c_r s3 = i2c_r ?s2 \<and> (0 < toWrite ?s2 \<or> hasRead ?s2)"
          using i2c_flush_err [OF fl [unfolded Some] good2 el] .
        then have "(x = ErrI2CWrite \<or> x = ErrI2CRead) \<longrightarrow> i2c_r s3 = r0"
          using q by (auto simp: rc)
        then show ?thesis using eq fr3 Some by simp
      next
        case None
        have eq: "i2c_read_loop rlen dd maxRLen s = i2c_read_loop (rlen - ?dlen) [] ?m s3"
          using \<open>0 < rlen\<close> send fl None by (subst i2c_read_loop.simps) (simp add: Let_def)
        note fo = i2c_flush_ok [OF fl [unfolded None] good2 el]
        have tr2: "1 \<le> toRead ?s2" unfolding rc using g dl send by auto
        have nh3: "\<not> hasRead s3" using fo tr2 by auto
        have inv3: "i2c_rinv (rlen - ?dlen) [] s3"
          unfolding i2c_rinv_def using fo dl nh3 by auto
        have q3: "i2c_r s3 = r0 \<or> (toWrite s3 = 0 \<and> \<not> hasRead s3)" using fo nh3 by simp
        have c3: "consumed (i2c_dev s3) = consumed (i2c_dev s) + toWrite s + toRead s + ?dlen"
          using settled_pending [of ?s2 s3] fo nh3 send by (auto simp: pending_def i2c_rcount_fields)
        from less.hyps [OF less' inv3 q3, of ?m] obtain e dd' s' where
          ih: "i2c_read_loop (rlen - ?dlen) [] ?m s3 = Some (e, dd', s')"
            "frames_ok (i2c_dev s3) (i2c_dev s')"
            "(e = Some ErrI2CWrite \<or> e = Some ErrI2CRead) \<longrightarrow> i2c_r s' = r0"
            "e = None \<longrightarrow> i2c_rinv 0 dd' s' \<and> (i2c_r s' = r0 \<or> (toWrite s' = 0 \<and> \<not> hasRead s'))
              \<and> consumed (i2c_dev s') + toWrite s' + toRead s'
                  = consumed (i2c_dev s3) + toWrite s3 + toRead s3 + (rlen - ?dlen)"
          by blast
        have "frames_ok (i2c_dev s) (i2c_dev s')" using fr3 ih(2) by (rule frames_ok_trans)
        then show ?thesis
          using eq ih c3 fo by auto
      qed
    qed
  qed
qed

lemma i2c_read_part_facts:
  assumes good: "i2c_good s" and nh: "\<not> hasRead s" and tr: "toRead s = 0"
  shows "\<exists>e s'. i2c_read_part addr s = Some (e, s') \<and> frames_ok (i2c_dev s) (i2c_dev s')
      \<and> ((e = Some ErrI2CWrite \<or> e = Some ErrI2CRead) \<longrightarrow> i2c_r s' = i2c_r s)
      \<and> (e = None \<longrightarrow> i2c_good s' \<and> (i2c_r s' = i2c_r s \<or> (toWrite s' = 0 \<and> \<not> hasRead s'))
            \<and> (hasRead s' \<longrightarrow> 1 \<le> toRead s')
            \<and> consumed (i2c_dev s') + pending s'
                = consumed (i2c_dev s) + toWrite s + (if i2c_r s = [] then 0 else 1)
                  + int (length (i2c_r s)))"
proof (cases "i2c_r s = []")
  case True
  then have "i2c_read_part addr s = Some (None, s)" by (simp add: i2c_read_part_def)
  then show ?thesis using good nh tr True by (simp add: frames_ok_refl pending_def)
next
  case False
  let ?s0 = "s\<lparr>hasRead := True\<rparr>"
  let ?d0 = "[CmdI2CStart, CmdI2CWrite OR 1, ucast (push_bit 1 addr) OR 1] :: byte list"
  let ?R = "int (length (i2c_r s))"
  have g: "0 \<le> toWrite s" "sl_cap (i2c_p s) = 512" "sl_len (i2c_p s) \<le> 509"
    "toWrite s < sl_len (i2c_p s) \<or> toWrite s = 0"
    using good by (auto simp: i2c_good_def)
  have R1: "1 \<le> ?R" using False by (cases "i2c_r s") auto
  have inv0: "i2c_rinv ?R ?d0 ?s0"
    using g tr R1 by (auto simp: i2c_rinv_def)
  have q0: "i2c_r ?s0 = i2c_r s \<or> (toWrite ?s0 = 0 \<and> \<not> hasRead ?s0)" by simp
  from i2c_read_loop_facts [OF inv0 q0, of 64] obtain e1 dd s1 where
    lp: "i2c_read_loop ?R ?d0 64 ?s0 = Some (e1, dd, s1)"
    and fr1: "frames_ok (i2c_dev s) (i2c_dev s1)"
    and nak1: "(e1 = Some ErrI2CWrite \<or> e1 = Some ErrI2CRead) \<longrightarrow> i2c_r s1 = i2c_r s"
    and ok1: "e1 = None \<longrightarrow> i2c_rinv 0 dd s1 \<and> (i2c_r s1 = i2c_r s \<or> (toWrite s1 = 0 \<and> \<not> hasRead s1))
            \<and> consumed (i2c_dev s1) + toWrite s1 + toRead s1
                = consumed (i2c_dev ?s0) + toWrite ?s0 + toRead ?s0 + ?R"
    by auto
  show ?thesis
  proof (cases e1)
    case (Some x)
    then have "i2c_read_part addr s = Some (e1, s1)"
      using False lp by (simp add: i2c_read_part_def)
    then show ?thesis using fr1 nak1 Some by simp
  next
    case None
    let ?s2 = "if \<not> hasRead s1 then s1\<lparr>toRead := toRead s1 + 1\<rparr> else s1"
    have rp: "i2c_read_part addr s = Some (pack (dd @ [CmdI2CRead]) ?s2)"
      using False lp None by (simp add: i2c_read_part_def Let_def)
    obtain e3 s3 where pk: "pack (dd @ [CmdI2CRead]) ?s2 = (e3, s3)"
      by (cases "pack (dd @ [CmdI2CRead]) ?s2")
    have i1: "0 \<le> toWrite s1" "0 \<le> toRead s1" "sl_cap (i2c_p s1) = 512" "sl_len (i2c_p s1) \<le> 509"
      "toWrite s1 < sl_len (i2c_p s1) \<or> toWrite s1 = 0" "toWrite s1 + toRead s1 \<le> 509"
      "hasRead s1 \<longrightarrow> 1 \<le> toRead s1" "63 * int (length dd) \<le> toRead s1 + 252"
      using ok1 None by (auto simp: i2c_rinv_def)
    have q1: "i2c_r s1 = i2c_r s \<or> (toWrite s1 = 0 \<and> \<not> hasRead s1)" using ok1 None by simp
    have c1: "consumed (i2c_dev s1) + toWrite s1 + toRead s1 = consumed (i2c_dev s) + toWrite s + ?R"
      using ok1 None tr by simp
    have good2: "i2c_good ?s2" using i1 by (auto simp: i2c_good_def)
    have el: "length (dd @ [CmdI2CRead]) \<le> 506" using i1 by simp
    have p2: "pending ?s2 = toWrite s1 + toRead s1 + 1" by (simp add: pending_def)
    have len2: "sl_len (i2c_p ?s2) \<le> 65536" using i1 by auto
    have d2: "i2c_dev ?s2 = i2c_dev s1" by simp
    have fr3: "frames_ok (i2c_dev s) (i2c_dev s3)"
      using frames_ok_trans [OF fr1 pack_frames [OF pk len2, unfolded d2]] .
    show ?thesis
    proof (cases e3)
      case (Some x)
      have "i2c_r s3 = i2c_r ?s2 \<and> (x = ErrI2CWrite \<longrightarrow> 0 < toWrite ?s2) \<and> (x = ErrI2CRead \<longrightarrow> hasRead ?s2)"
        by (rule pack_err [OF pk [unfolded Some]]) (use i1 in auto)
      then have "(x = ErrI2CWrite \<or> x = ErrI2CRead) \<longrightarrow> i2c_r s3 = i2c_r s"
        using q1 by (auto split: if_splits)
      then show ?thesis using rp pk fr3 Some by simp
    next
      case n3: None
      note po = pack_ok [OF pk [unfolded n3] good2 el]
      have st: "settled ?s2 s3" using po by simp
      have good3: "i2c_good s3" using po by (auto simp: i2c_good_def)
      have q3: "i2c_r s3 = i2c_r s \<or> (toWrite s3 = 0 \<and> \<not> hasRead s3)"
        using st q1 by (auto simp: settled_def same_counts_def cleared_def split: if_splits)
      have h3: "hasRead s3 \<longrightarrow> 1 \<le> toRead s3"
        using st i1 by (auto simp: settled_def same_counts_def cleared_def split: if_splits)
      have c3: "consumed (i2c_dev s3) + pending s3 = consumed (i2c_dev s) + toWrite s + 1 + ?R"
        using settled_pending [OF st] p2 c1 by (auto split: if_splits)
      show ?thesis using rp pk n3 fr3 good3 q3 h3 c3 False by simp
    qed
  qed
qed

lemma i2c_stop_part_facts:
  assumes run: "i2c_stop_part s = (e, s')" and good: "i2c_good s"
    and q: "i2c_r s = r0 \<or> (toWrite s = 0 \<and> \<not> hasRead s)"
    and h: "hasRead s \<longrightarrow> 1 \<le> toRead s"
  shows "frames_ok (i2c_dev s) (i2c_dev s')
      \<and> ((e = Some ErrI2CWrite \<or> e = Some ErrI2CRead) \<longrightarrow> i2c_r s' = r0)
      \<and> (e = None \<longrightarrow> consumed (i2c_dev s') = consumed (i2c_dev s) + pending s)"
proof -
  have fl: "i2c_flush [CmdI2CStop] s = (e, s')" using run by (simp add: i2c_stop_part_def)
  have el: "length [CmdI2CStop] \<le> 506" by simp
  note fr = i2c_flush_frames [OF fl good el]
  show ?thesis
  proof (cases e)
    case (Some x)
    have "(x = ErrI2CWrite \<or> x = ErrI2CRead) \<longrightarrow> i2c_r s' = i2c_r s \<and> (0 < toWrite s \<or> hasRead s)"
      using i2c_flush_err [OF fl [unfolded Some] good el] .
    then show ?thesis using fr q Some by auto
  next
    case None
    note fo = i2c_flush_ok [OF fl [unfolded None] good el]
    have "\<not> hasRead s'" using fo h by auto
    then have "pending s' = 0" using fo by (simp add: pending_def)
    then have "consumed (i2c_dev s') = consumed (i2c_dev s) + pending s"
      using settled_pending [of s s'] fo by simp
    then show ?thesis using fr None by simp
  qed
qed

text \<open>
  Every call of \<open>I2C\<close> returns; its frames are length-prefixed; a failed acknowledgement
  leaves \<open>r\<close> as it was; a call without error has read back one response byte for each byte
  the write commands carried, one for the read request, and one for each byte of \<open>r\<close>.
\<close>

lemma I2C_facts:
  "\<exists>e r' d'. I2C addr w r d = Some (e, r', d') \<and> frames_ok d d'
      \<and> ((e = Some ErrI2CWrite \<or> e = Some ErrI2CRead) \<longrightarrow> r' = r)
      \<and> (e = None \<longrightarrow> consumed d' = consumed d + (if w = [] then 0 else int (length w) + 1)
                          + (if r = [] then 0 else 1) + int (length r))"
proof -
  obtain e1 s1 where wp: "i2c_write_part addr w (i2c_init r d) = (e1, s1)"
    by (cases "i2c_write_part addr w (i2c_init r d)")
  note wf = i2c_write_part_facts [OF wp]
  show ?thesis
  proof (cases e1)
    case (Some x)
    then have "I2C addr w r d = Some (e1, i2c_r s1, i2c_dev s1)" using wp by (simp add: I2C_def)
    then show ?thesis using wf Some by simp
  next
    case None
    have g1: "i2c_good s1" "\<not> hasRead s1" "toRead s1 = 0" "i2c_r s1 = r"
      and c1: "consumed (i2c_dev s1) + toWrite s1 = consumed d + (if w = [] then 0 else int (length w) + 1)"
      using wf None by auto
    from i2c_read_part_facts [OF g1(1,2,3), of addr] obtain e2 s2 where
      rp: "i2c_read_part addr s1 = Some (e2, s2)" and fr2: "frames_ok (i2c_dev s1) (i2c_dev s2)"
      and nak2: "(e2 = Some ErrI2CWrite \<or> e2 = Some ErrI2CRead) \<longrightarrow> i2c_r s2 = r"
      and ok2: "e2 = None \<longrightarrow> i2c_good s2 \<and> (i2c_r s2 = r \<or> (toWrite s2 = 0 \<and> \<not> hasRead s2))
            \<and> (hasRead s2 \<longrightarrow> 1 \<le> toRead s2)
            \<and> consumed (i2c_dev s2) + pending s2
                = consumed (i2c_dev s1) + toWrite s1 + (if r = [] then 0 else 1) + int (length r)"
      using g1(4) by auto
    have fr02: "frames_ok d (i2c_dev s2)" using wf fr2 by (auto intro: frames_ok_trans)
    show ?thesis
    proof (cases e2)
      case (Some x)
      then have "I2C addr w r d = Some (e2, i2c_r s2, i2c_dev s2)"
        using wp None rp by (simp add: I2C_def)
      then show ?thesis using fr02 nak2 Some by simp
    next
      case n2: None
      obtain e3 s3 where sp: "i2c_stop_part s2 = (e3, s3)" by (cases "i2c_stop_part s2")
      have res: "I2C addr w r d = Some (e3, i2c_r s3, i2c_dev s3)"
        using wp None rp n2 sp by (simp add: I2C_def)
      have "frames_ok (i2c_dev s2) (i2c_dev s3)
          \<and> ((e3 = Some ErrI2CWrite \<or> e3 = Some ErrI2CRead) \<longrightarrow> i2c_r s3 = r)
          \<and> (e3 = None \<longrightarrow> consumed (i2c_dev s3) = consumed (i2c_dev s2) + pending s2)"
        by (rule i2c_stop_part_facts [OF sp]) (use ok2 n2 in auto)
      then show ?thesis using res fr02 ok2 n2 c1 by (auto intro: frames_ok_trans)
    qed
  qed
qed

section \<open>I2C: the claims\<close>








section \<open>Length-prefixed frames\<close>

text \<open>
  Claim C10.  \<open>UART.Write\<close>, \<open>SPI\<close> and \<open>I2C\<close> return on every input, and every frame
  they have written carries in its first two bytes, little-endian, the number of bytes
  that follow them.
\<close>

theorem frames_length_prefixed:
  "frames_ok d (snd (snd (UART_Write b d)))
   \<and> (\<exists>e d'. SPI w r d = Some (e, d') \<and> frames_ok d d')
   \<and> (\<exists>e r' d'. I2C addr v r d = Some (e, r', d') \<and> frames_ok d d')"
proof -
  have "\<exists>e r' d'. I2C addr v r d = Some (e, r', d') \<and> frames_ok d d'"
    using I2C_facts [of addr v r d] by blast
  then show ?thesis using UART_Write_frames [of d b] SPI_total_frames [of w r d] by blast
qed


end
